theory Spec2Isabelle
  imports Main "HOL-Library.Multiset"
begin

text \<open>
  A verification development for the board editor of LibrePCB: the value classes of the
  wiring (NetPoint), the clipboard builder, the two composite edit commands
  (remove board items, paste board items) on top of the undo command group, and the
  net segment splitter.
\<close>

section \<open>Geometry and identity primitives\<close>

text \<open>
  A \<open>Uuid\<close> is an opaque identity; only equality of identities is ever used, so it is a
  natural number here. A \<open>Point\<close> is a pair of lengths, each an integer number of
  nanometres; two points are equal when both coordinates are.
\<close>

type_synonym Uuid = nat

type_synonym Point = "int \<times> int"

section \<open>NetPoint (common/geometry/netpoint.cpp)\<close>

text \<open>
  \<open>NetPoint\<close> holds \<open>mUuid\<close> and \<open>mPosition\<close> and owns the signal \<open>onEdited\<close>.
  A setter mutates the object and may notify the signal; the model returns the value the
  C++ method returns, the object after the call and the events notified, in order.
\<close>

datatype Event = UuidChanged | PositionChanged

record NetPoint =
  mUuid :: Uuid
  mPosition :: Point

definition setPosition :: "Point \<Rightarrow> NetPoint \<Rightarrow> bool \<times> NetPoint \<times> Event list" where
  "setPosition position np =
     (if position = mPosition np then (False, np, [])
      else (True, np\<lparr>mPosition := position\<rparr>, [PositionChanged]))"

text \<open>\<open>NetPoint::operator==\<close>: the uuids are compared first, then the positions.\<close>

definition netpoint_eq :: "NetPoint \<Rightarrow> NetPoint \<Rightarrow> bool" where
  "netpoint_eq lhs rhs =
     (if mUuid lhs \<noteq> mUuid rhs then False
      else if mPosition lhs \<noteq> mPosition rhs then False
      else True)"

text \<open>
  \<open>NetPoint::operator=\<close>: the uuid is copied (and \<open>UuidChanged\<close> notified) when it
  differs, then the position is set through \<open>setPosition\<close>.
\<close>

definition netpoint_assign :: "NetPoint \<Rightarrow> NetPoint \<Rightarrow> NetPoint \<times> Event list" where
  "netpoint_assign this rhs =
     (let (this1, ev1) =
            (if mUuid this \<noteq> mUuid rhs then (this\<lparr>mUuid := mUuid rhs\<rparr>, [UuidChanged])
             else (this, []));
          (_, this2, ev2) = setPosition (mPosition rhs) this1
      in (this2, ev1 @ ev2))"

section \<open>Geometry value classes\<close>

text \<open>
  The value classes the editor commands read. Their sources are outside the files at
  hand; the records hold the attributes the commands pass around. A length is an integer
  number of nanometres, an angle an integer number of microdegrees.
\<close>

type_synonym Length = int

type_synonym Angle = int

datatype ViaShape = Round | Square | Octagon

record Via =
  via_uuid :: Uuid
  via_position :: Point
  via_shape :: ViaShape
  via_size :: Length
  via_drillDiameter :: Length

text \<open>
  \<open>TraceAnchor\<close> is a discriminated union: \<open>tryGetNetPoint\<close>, \<open>tryGetVia\<close> and
  \<open>tryGetPad\<close> each answer for one alternative. A pad is named by the component
  instance of its device and the pad of the library footprint.
\<close>

datatype TraceAnchor = TA_netPoint Uuid | TA_via Uuid | TA_pad Uuid Uuid

record Trace =
  trace_uuid :: Uuid
  trace_layer :: string
  trace_width :: Length
  trace_startPoint :: TraceAnchor
  trace_endPoint :: TraceAnchor

record StrokeText =
  stroketext_uuid :: Uuid
  stroketext_position :: Point
  stroketext_text :: string

record Polygon =
  polygon_uuid :: Uuid
  polygon_layer :: string
  polygon_path :: "Point list"

record Hole =
  hole_uuid :: Uuid
  hole_position :: Point
  hole_diameter :: Length

definition point_add :: "Point \<Rightarrow> Point \<Rightarrow> Point" where
  "point_add p q = (fst p + fst q, snd p + snd q)"

definition path_translated :: "Point \<Rightarrow> Point list \<Rightarrow> Point list" where
  "path_translated offset path = map (\<lambda>v. point_add v offset) path"

section \<open>Circuit and project library\<close>

record NetClass =
  netclass_uuid :: Uuid
  netclass_name :: string

record NetSignal =
  netsignal_uuid :: Uuid
  netsignal_name :: string
  netsignal_netClass :: NetClass

record LibPackage =
  libpkg_uuid :: Uuid
  libpkg_pads :: "Uuid list"

record LibDevice =
  libdev_uuid :: Uuid
  libdev_packageUuid :: Uuid

text \<open>
  A directory of library files. All that is done with one is: ask whether it holds any
  file, copy it, and load the library element it serialises. It is therefore modelled by
  the element it holds.
\<close>

datatype Directory = EmptyDir | DeviceDir LibDevice | PackageDir LibPackage

text \<open>The paths \<open>"dev/" % uuid\<close> and \<open>"pkg/" % uuid\<close> inside the clipboard payload.\<close>

datatype DirPath = DevPath Uuid | PkgPath Uuid

type_synonym FileSystem = "(DirPath \<times> Directory) list"

definition getDirectory :: "FileSystem \<Rightarrow> DirPath \<Rightarrow> Directory" where
  "getDirectory fs path = (case map_of fs path of None \<Rightarrow> EmptyDir | Some d \<Rightarrow> d)"

definition copyTo :: "Directory \<Rightarrow> DirPath \<Rightarrow> FileSystem \<Rightarrow> FileSystem" where
  "copyTo src path fs = (path, src) # filter (\<lambda>entry. fst entry \<noteq> path) fs"

section \<open>Board items\<close>

text \<open>
  The commands hold pointers to board items (\<open>BI_Via*\<close>, \<open>BI_NetLine*\<close>, ...) and read
  attributes through them. A pointer is modelled by the value of the item it points to,
  holding the attributes that are read; two pointers are equal when the values are. The
  pointer from an item back to its net segment is the value of that segment, which lists
  the geometry of its vias, net points and net lines. None of the attributes read here
  is written by a child command between the construction of the composite command and
  the read. The selection flag of an item (\<open>setSelected\<close>) belongs to the graphics
  scene and is left out.
\<close>

record BI_NetSegment =
  netsegment_uuid :: Uuid
  netsegment_netSignal :: NetSignal
  netsegment_vias :: "Via list"
  netsegment_netPoints :: "NetPoint list"
  netsegment_netLines :: "Trace list"

record BI_Via =
  bivia_via :: Via
  bivia_netSegment :: BI_NetSegment

record BI_NetLine =
  netline_trace :: Trace
  netline_netSegment :: BI_NetSegment

record BI_FootprintPad =
  pad_libPadUuid :: Uuid
  pad_netLines :: "BI_NetLine list"

record BI_Device =
  bidev_componentInstanceUuid :: Uuid
  bidev_libDevice :: LibDevice
  bidev_libPackage :: LibPackage
  bidev_libFootprintUuid :: Uuid
  bidev_position :: Point
  bidev_rotation :: Angle
  bidev_isMirrored :: bool
  bidev_strokeTexts :: "StrokeText list"
  bidev_pads :: "BI_FootprintPad list"

datatype ConnectStyle = ConnectNone | ConnectSolid

record BI_Plane =
  plane_uuid :: Uuid
  plane_layerName :: string
  plane_netSignal :: NetSignal
  plane_outline :: "Point list"
  plane_minWidth :: Length
  plane_minClearance :: Length
  plane_keepOrphans :: bool
  plane_priority :: int
  plane_connectStyle :: ConnectStyle

record BI_Polygon =
  bipolygon_polygon :: Polygon

text \<open>
  \<open>getFootprint()\<close> of a stroke text is null for a text of the board itself; for a text
  of a footprint it leads to the device instance, named here by its component instance.
\<close>

record BI_StrokeText =
  bitext_text :: StrokeText
  bitext_footprint :: "Uuid option"

record BI_Hole =
  bihole_hole :: Hole

section \<open>Clipboard payload (boardclipboarddata.h)\<close>

record CD_Device =
  cd_componentUuid :: Uuid
  cd_libDeviceUuid :: Uuid
  cd_libFootprintUuid :: Uuid
  cd_position :: Point
  cd_rotation :: Angle
  cd_mirrored :: bool
  cd_strokeTexts :: "StrokeText list"

record CD_NetSegment =
  cd_netName :: string
  cd_vias :: "Via list"
  cd_points :: "NetPoint list"
  cd_traces :: "Trace list"

record CD_Plane =
  cdplane_uuid :: Uuid
  cdplane_layer :: string
  cdplane_netSignalName :: string
  cdplane_outline :: "Point list"
  cdplane_minWidth :: Length
  cdplane_minClearance :: Length
  cdplane_keepOrphans :: bool
  cdplane_priority :: int
  cdplane_connectStyle :: ConnectStyle

record BoardClipboardData =
  data_boardUuid :: Uuid
  data_cursorPos :: Point
  data_fileSystem :: FileSystem
  data_devices :: "CD_Device list"
  data_netSegments :: "CD_NetSegment list"
  data_planes :: "CD_Plane list"
  data_polygons :: "Polygon list"
  data_strokeTexts :: "StrokeText list"
  data_holes :: "Hole list"

text \<open>
  Modelled from the spec: the constructor \<open>BoardClipboardData(boardUuid, cursorPos)\<close>,
  whose source is missing. The payload is a snapshot of copied elements (devices, net
  segments, planes, polygons, stroke texts, holes); a new payload holds none and its
  directory holds no file.
\<close>

definition BoardClipboardData_new :: "Uuid \<Rightarrow> Point \<Rightarrow> BoardClipboardData" where
  "BoardClipboardData_new boardUuid cursorPos =
     \<lparr>data_boardUuid = boardUuid, data_cursorPos = cursorPos, data_fileSystem = [],
      data_devices = [], data_netSegments = [], data_planes = [], data_polygons = [],
      data_strokeTexts = [], data_holes = []\<rparr>"

section \<open>Clipboard builder (boardclipboarddatabuilder.cpp)\<close>

text \<open>
  The selection query is an external collaborator. Its result sets after the seven
  \<open>add...\<close> calls of \<open>generate\<close> are what the board hands over; a set is a list in the
  order \<open>foreach\<close> visits it.
\<close>

record BoardSelectionQuery =
  query_deviceInstances :: "BI_Device list"
  query_vias :: "BI_Via list"
  query_netLines :: "BI_NetLine list"
  query_planes :: "BI_Plane list"
  query_polygons :: "BI_Polygon list"
  query_strokeTexts :: "BI_StrokeText list"
  query_holes :: "BI_Hole list"

record Board =
  board_uuid :: Uuid
  board_selectionQuery :: BoardSelectionQuery

text \<open>One round of the loop "add devices": both library directories, then the device.\<close>

definition generate_addDevice :: "BI_Device \<Rightarrow> BoardClipboardData \<Rightarrow> BoardClipboardData" where
  "generate_addDevice device data =
     (let devPath = DevPath (libdev_uuid (bidev_libDevice device));
          fs1 = (if getDirectory (data_fileSystem data) devPath = EmptyDir
                 then copyTo (DeviceDir (bidev_libDevice device)) devPath (data_fileSystem data)
                 else data_fileSystem data);
          pkgPath = PkgPath (libpkg_uuid (bidev_libPackage device));
          fs2 = (if getDirectory fs1 pkgPath = EmptyDir
                 then copyTo (PackageDir (bidev_libPackage device)) pkgPath fs1
                 else fs1);
          strokeTexts = bidev_strokeTexts device
      in data\<lparr>data_fileSystem := fs2,
              data_devices := data_devices data @
                [\<lparr>cd_componentUuid = bidev_componentInstanceUuid device,
                  cd_libDeviceUuid = libdev_uuid (bidev_libDevice device),
                  cd_libFootprintUuid = bidev_libFootprintUuid device,
                  cd_position = bidev_position device,
                  cd_rotation = bidev_rotation device,
                  cd_mirrored = bidev_isMirrored device,
                  cd_strokeTexts = strokeTexts\<rparr>]\<rparr>)"

definition generate_addPlane :: "BI_Plane \<Rightarrow> BoardClipboardData \<Rightarrow> BoardClipboardData" where
  "generate_addPlane plane data =
     data\<lparr>data_planes := data_planes data @
       [\<lparr>cdplane_uuid = plane_uuid plane,
         cdplane_layer = plane_layerName plane,
         cdplane_netSignalName = netsignal_name (plane_netSignal plane),
         cdplane_outline = plane_outline plane,
         cdplane_minWidth = plane_minWidth plane,
         cdplane_minClearance = plane_minClearance plane,
         cdplane_keepOrphans = plane_keepOrphans plane,
         cdplane_priority = plane_priority plane,
         cdplane_connectStyle = plane_connectStyle plane\<rparr>]\<rparr>"

definition generate_addPolygon :: "BI_Polygon \<Rightarrow> BoardClipboardData \<Rightarrow> BoardClipboardData" where
  "generate_addPolygon polygon data =
     data\<lparr>data_polygons := data_polygons data @ [bipolygon_polygon polygon]\<rparr>"

definition generate_addStrokeText :: "BI_StrokeText \<Rightarrow> BoardClipboardData \<Rightarrow> BoardClipboardData" where
  "generate_addStrokeText text data =
     data\<lparr>data_strokeTexts := data_strokeTexts data @ [bitext_text text]\<rparr>"

definition generate_addHole :: "BI_Hole \<Rightarrow> BoardClipboardData \<Rightarrow> BoardClipboardData" where
  "generate_addHole hole data =
     data\<lparr>data_holes := data_holes data @ [bihole_hole hole]\<rparr>"

text \<open>
  \<open>BoardClipboardDataBuilder::generate\<close>. The block "add (splitted) net segments" is
  commented out in the source, so nothing stands between the devices and the planes.
\<close>

definition generate :: "Board \<Rightarrow> Point \<Rightarrow> BoardClipboardData" where
  "generate mBoard cursorPos =
     (let data0 = BoardClipboardData_new (board_uuid mBoard) cursorPos;
          query = board_selectionQuery mBoard;
          data1 = fold generate_addDevice (query_deviceInstances query) data0;
          data2 = fold generate_addPlane (query_planes query) data1;
          data3 = fold generate_addPolygon (query_polygons query) data2;
          data4 = fold generate_addStrokeText (query_strokeTexts query) data3;
          data5 = fold generate_addHole (query_holes query) data4
      in data5)"

section \<open>Faults and actions\<close>

text \<open>
  \<open>LogicError\<close> and \<open>RuntimeError\<close> are the exceptions of the program. Dereferencing a
  null pointer and a failing \<open>Q_ASSERT\<close> are not exceptions; so that every function of
  the model is total they are recorded as the fault \<open>NullPointer\<close>.

  An action is a piece of code that runs in a state of type \<open>'g\<close>: it returns the state
  it leaves behind together with either the exception it threw (\<open>Inl\<close>) or its value.
\<close>

datatype Exception = LogicError | RuntimeError | NullPointer

type_synonym ('a, 'g) action = "'g \<Rightarrow> (Exception + 'a) \<times> 'g"

definition returnA :: "'a \<Rightarrow> ('a, 'g) action" where
  "returnA x g = (Inr x, g)"

definition throwA :: "Exception \<Rightarrow> ('a, 'g) action" where
  "throwA e g = (Inl e, g)"

definition bindA :: "('a, 'g) action \<Rightarrow> ('a \<Rightarrow> ('b, 'g) action) \<Rightarrow> ('b, 'g) action" where
  "bindA m f g = (case m g of (Inl e, g') \<Rightarrow> (Inl e, g') | (Inr x, g') \<Rightarrow> f x g')"

definition getsA :: "('g \<Rightarrow> 'a) \<Rightarrow> ('a, 'g) action" where
  "getsA f g = (Inr (f g), g)"

text \<open>A loop over a list that carries local variables from one round to the next.\<close>

fun foldA :: "('b \<Rightarrow> 'a \<Rightarrow> ('a, 'g) action) \<Rightarrow> 'b list \<Rightarrow> 'a \<Rightarrow> ('a, 'g) action" where
  "foldA f [] acc = returnA acc"
| "foldA f (x # xs) acc = bindA (f x acc) (foldA f xs)"

definition forA :: "'b list \<Rightarrow> ('b \<Rightarrow> (unit, 'g) action) \<Rightarrow> (unit, 'g) action" where
  "forA xs f = foldA (\<lambda>x u. f x) xs ()"

section \<open>Undo command group\<close>

text \<open>
  A child command is executed against the model and may throw; a command that threw has
  left the model as it found it. A command that was executed keeps what it needs for its
  undo (for instance the object it created): this is the result \<open>'r\<close> that the group
  stores next to the command. The meaning of the child commands is a parameter.
\<close>

record ('c, 'r, 's) CmdSem =
  cmd_execute :: "'c \<Rightarrow> 's \<Rightarrow> Exception + ('r \<times> 's)"
  cmd_undo :: "'c \<Rightarrow> 'r \<Rightarrow> 's \<Rightarrow> 's"

text \<open>
  The contract of a command: it is a reversible edit, so its undo takes the model back
  to where its execution started.
\<close>

definition reversible :: "('c, 'r, 's) CmdSem \<Rightarrow> bool" where
  "reversible sem =
     (\<forall>c s r s'. cmd_execute sem c s = Inr (r, s') \<longrightarrow> cmd_undo sem c r s' = s)"

text \<open>
  The group: the model it edits, its children in the order of their execution, and a
  log of what each child observed (kept for the proofs only): that its execution
  completed, that its execution threw an exception, or that it was undone.
\<close>

datatype 'c Op = Executed 'c | Failed 'c Exception | Undone 'c

record ('c, 'r, 's) UndoCommandGroup =
  model :: 's
  mChilds :: "('c \<times> 'r) list"
  history :: "'c Op list"

text \<open>
  Modelled from the spec: \<open>UndoCommandGroup::execNewChildCmd\<close>, \<open>getChildCount\<close> and
  \<open>performUndo\<close>, and \<open>scopeGuard\<close>, whose sources are missing. A child is constructed
  and executed in turn and joins the ordered child list once its execution has
  completed; an exception of its execution is passed on to the caller; the undo protocol invokes undo on the children in strict reverse of the
  execution order; the scoped guard, if still armed when the function is left, invokes
  \<open>performUndo\<close>, and does nothing once dismissed.
\<close>

definition execNewChildCmd ::
  "('c, 'r, 's) CmdSem \<Rightarrow> 'c \<Rightarrow> ('r, ('c, 'r, 's, 'z) UndoCommandGroup_scheme) action" where
  "execNewChildCmd sem cmd g =
     (case cmd_execute sem cmd (model g) of
        Inl e \<Rightarrow> (Inl e, g\<lparr>history := history g @ [Failed cmd e]\<rparr>)
      | Inr (r, s') \<Rightarrow>
          (Inr r, g\<lparr>model := s', mChilds := mChilds g @ [(cmd, r)],
                    history := history g @ [Executed cmd]\<rparr>))"

definition getChildCount :: "('c, 'r, 's, 'z) UndoCommandGroup_scheme \<Rightarrow> nat" where
  "getChildCount g = length (mChilds g)"

fun undoChilds :: "('c, 'r, 's) CmdSem \<Rightarrow> ('c \<times> 'r) list \<Rightarrow> 's \<Rightarrow> 's" where
  "undoChilds sem [] s = s"
| "undoChilds sem (child # executedLater) s =
     cmd_undo sem (fst child) (snd child) (undoChilds sem executedLater s)"

definition performUndo ::
  "('c, 'r, 's) CmdSem \<Rightarrow> ('c, 'r, 's, 'z) UndoCommandGroup_scheme
     \<Rightarrow> ('c, 'r, 's, 'z) UndoCommandGroup_scheme" where
  "performUndo sem g =
     g\<lparr>model := undoChilds sem (mChilds g) (model g),
       history := history g @ map (\<lambda>child. Undone (fst child)) (rev (mChilds g))\<rparr>"

definition scopeGuard_exit ::
  "('c, 'r, 's) CmdSem \<Rightarrow> bool \<Rightarrow> ('c, 'r, 's, 'z) UndoCommandGroup_scheme
     \<Rightarrow> ('c, 'r, 's, 'z) UndoCommandGroup_scheme" where
  "scopeGuard_exit sem armed g = (if armed then performUndo sem g else g)"

text \<open>
  The frame both \<open>performExecute\<close> functions share: the guard is created first; the body
  runs; an exception leaves the function with the guard armed; otherwise the guard is
  dismissed and \<open>getChildCount() > 0\<close> is returned.
\<close>

definition guardedExecute ::
  "('c, 'r, 's) CmdSem \<Rightarrow> (unit, ('c, 'r, 's, 'z) UndoCommandGroup_scheme) action
     \<Rightarrow> (bool, ('c, 'r, 's, 'z) UndoCommandGroup_scheme) action" where
  "guardedExecute sem body g =
     (case body g of
        (Inl e, g') \<Rightarrow> (Inl e, scopeGuard_exit sem True g')
      | (Inr u, g') \<Rightarrow> (Inr (getChildCount g' > 0), scopeGuard_exit sem False g'))"

section \<open>Project state and child commands\<close>

text \<open>
  What the two composite commands read of the project while they run (circuit, project
  library, layer stack, devices of the board), and the collections of the board that the
  child commands edit.
\<close>

record Project =
  prj_netClasses :: "NetClass list"
  prj_netSignals :: "NetSignal list"
  prj_componentInstances :: "Uuid list"
  prj_libDevices :: "LibDevice list"
  prj_libPackages :: "LibPackage list"
  prj_layers :: "string list"
  prj_deviceInstances :: "BI_Device list"
  prj_netSegments :: "BI_NetSegment list"
  prj_planes :: "BI_Plane list"
  prj_polygons :: "BI_Polygon list"
  prj_strokeTexts :: "BI_StrokeText list"
  prj_holes :: "BI_Hole list"

definition getNetSignalByName :: "Project \<Rightarrow> string \<Rightarrow> NetSignal option" where
  "getNetSignalByName prj name = find (\<lambda>n. netsignal_name n = name) (prj_netSignals prj)"

definition getNetClassByName :: "Project \<Rightarrow> string \<Rightarrow> NetClass option" where
  "getNetClassByName prj name = find (\<lambda>n. netclass_name n = name) (prj_netClasses prj)"

definition getComponentInstanceByUuid :: "Project \<Rightarrow> Uuid \<Rightarrow> Uuid option" where
  "getComponentInstanceByUuid prj uuid =
     (if uuid \<in> set (prj_componentInstances prj) then Some uuid else None)"

definition getDeviceInstanceByComponentUuid :: "Project \<Rightarrow> Uuid \<Rightarrow> BI_Device option" where
  "getDeviceInstanceByComponentUuid prj uuid =
     find (\<lambda>d. bidev_componentInstanceUuid d = uuid) (prj_deviceInstances prj)"

definition getLibDevice :: "Project \<Rightarrow> Uuid \<Rightarrow> LibDevice option" where
  "getLibDevice prj uuid = find (\<lambda>d. libdev_uuid d = uuid) (prj_libDevices prj)"

definition getLibPackage :: "Project \<Rightarrow> Uuid \<Rightarrow> LibPackage option" where
  "getLibPackage prj uuid = find (\<lambda>d. libpkg_uuid d = uuid) (prj_libPackages prj)"

definition getLayer :: "Project \<Rightarrow> string \<Rightarrow> string option" where
  "getLayer prj name = (if name \<in> set (prj_layers prj) then Some name else None)"

definition getPad :: "BI_Device \<Rightarrow> Uuid \<Rightarrow> BI_FootprintPad option" where
  "getPad device uuid = find (\<lambda>pad. pad_libPadUuid pad = uuid) (bidev_pads device)"

definition getVias :: "BI_NetSegment \<Rightarrow> BI_Via list" where
  "getVias netsegment =
     map (\<lambda>v. \<lparr>bivia_via = v, bivia_netSegment = netsegment\<rparr>) (netsegment_vias netsegment)"

definition getNetLines :: "BI_NetSegment \<Rightarrow> BI_NetLine list" where
  "getNetLines netsegment =
     map (\<lambda>t. \<lparr>netline_trace = t, netline_netSegment = netsegment\<rparr>)
       (netsegment_netLines netsegment)"

text \<open>
  The child commands the two composite commands construct, each named by its class and
  holding the arguments of its constructor. \<open>CmdBoardNetSegmentAdd\<close> has two
  constructors: from a net signal (the command creates the segment when executed) and
  from a segment made by the caller.
\<close>

datatype Cmd =
    CmdBoardNetSegmentRemove BI_NetSegment
  | CmdBoardNetSegmentAdd NetSignal "BI_NetSegment option"
  | CmdBoardNetSegmentAddElements BI_NetSegment "Via list" "NetPoint list" "Trace list"
  | CmdDeviceInstanceRemove BI_Device
  | CmdDeviceInstanceAdd BI_Device
  | CmdBoardPlaneRemove BI_Plane
  | CmdBoardPlaneAdd BI_Plane
  | CmdBoardPolygonRemove BI_Polygon
  | CmdBoardPolygonAdd BI_Polygon
  | CmdFootprintStrokeTextRemove Uuid BI_StrokeText
  | CmdBoardStrokeTextRemove BI_StrokeText
  | CmdBoardStrokeTextAdd BI_StrokeText
  | CmdBoardHoleRemove BI_Hole
  | CmdBoardHoleAdd BI_Hole
  | CmdRemoveUnusedLibraryElements
  | CmdProjectLibraryAddDevice LibDevice
  | CmdProjectLibraryAddPackage LibPackage
  | CmdNetClassAdd string
  | CmdNetSignalAdd NetClass

text \<open>
  What an executed command keeps: the object it created, read back by the caller through
  \<open>getNetSegment()\<close>, \<open>getNetClass()\<close> or \<open>getNetSignal()\<close>, or what its undo needs to
  put back.
\<close>

datatype CmdResult =
    NoResult
  | NetSegmentResult BI_NetSegment
  | NetClassResult NetClass
  | NetSignalResult NetSignal
  | AtIndex nat
  | RemovedLibrary "LibDevice list" "LibPackage list"

definition getNetSegment :: "CmdResult \<Rightarrow> BI_NetSegment option" where
  "getNetSegment r = (case r of NetSegmentResult x \<Rightarrow> Some x | _ \<Rightarrow> None)"

definition getNetClass :: "CmdResult \<Rightarrow> NetClass option" where
  "getNetClass r = (case r of NetClassResult x \<Rightarrow> Some x | _ \<Rightarrow> None)"

definition getNetSignal :: "CmdResult \<Rightarrow> NetSignal option" where
  "getNetSignal r = (case r of NetSignalResult x \<Rightarrow> Some x | _ \<Rightarrow> None)"

text \<open>
  The state a composite command runs in: the group it inherits from, the supply behind
  \<open>Uuid::createRandom()\<close> (only that a call yields an identity and moves the supply on
  is modelled), and a log of the net segments the splitter was run for (kept for the
  proofs only).
\<close>

record EditGroup = "(Cmd, CmdResult, Project) UndoCommandGroup" +
  nextUuid :: Uuid
  splitterCalls :: "BI_NetSegment list"

type_synonym EditSem = "(Cmd, CmdResult, Project) CmdSem"

definition createRandom :: "(Uuid, EditGroup) action" where
  "createRandom g = (Inr (nextUuid g), g\<lparr>nextUuid := Suc (nextUuid g)\<rparr>)"

definition liftE :: "Exception + 'a \<Rightarrow> ('a, 'g) action" where
  "liftE r g = (r, g)"

text \<open>
  The guard in front of \<open>addNetLine\<close>, the same line in both composite commands:
  \<open>if ((!start) || (!end) || (!layer)) throw LogicError\<close>. A pointer to a net line
  anchor is the \<open>TraceAnchor\<close> that names the live anchor, a null pointer is \<open>None\<close>.
  \<open>addNetLine\<close> gives the new net line an identity of its own.
\<close>

definition addNetLine_guarded ::
  "TraceAnchor option \<Rightarrow> TraceAnchor option \<Rightarrow> string option \<Rightarrow> Length \<Rightarrow> Trace list
     \<Rightarrow> (Trace list, EditGroup) action" where
  "addNetLine_guarded startA endA layer width netlines =
     (if startA = None \<or> endA = None \<or> layer = None then throwA LogicError
      else bindA createRandom (\<lambda>uuid.
             returnA (netlines @
               [\<lparr>trace_uuid = uuid, trace_layer = the layer, trace_width = width,
                 trace_startPoint = the startA, trace_endPoint = the endA\<rparr>])))"

section \<open>CmdRemoveBoardItems (cmdremoveboarditems.cpp)\<close>

text \<open>The members of the command: the sets of items to remove.\<close>

record CmdRemoveBoardItems =
  mDeviceInstances :: "BI_Device list"
  mVias :: "BI_Via list"
  mNetLines :: "BI_NetLine list"
  mPlanes :: "BI_Plane list"
  mPolygons :: "BI_Polygon list"
  mStrokeTexts :: "BI_StrokeText list"
  mHoles :: "BI_Hole list"

record NetSegmentItems =
  items_vias :: "BI_Via list"
  items_netpoints :: "NetPoint list"
  items_netlines :: "BI_NetLine list"

type_synonym NetSegmentItemList = "(BI_NetSegment \<times> NetSegmentItems) list"

text \<open>
  \<open>BoardNetSegmentSplitter\<close> is used through \<open>addNetPoint\<close>, \<open>addVia\<close>, \<open>addTrace\<close> and
  \<open>split()\<close>; its source is missing, so the function from what was added to the
  resulting segments is a parameter of the command.
\<close>

record BoardSegment =
  segment_netpoints :: "NetPoint list"
  segment_vias :: "Via list"
  segment_traces :: "Trace list"

type_synonym BoardSplitter = "NetPoint list \<Rightarrow> Via list \<Rightarrow> Trace list \<Rightarrow> BoardSegment list"

text \<open>"also remove all netlines from devices": \<open>mNetLines += pad->getNetLines()\<close>.\<close>

definition addNetLinesOfDevices :: "BI_Device list \<Rightarrow> BI_NetLine list \<Rightarrow> BI_NetLine list" where
  "addNetLinesOfDevices devices netlines =
     fold (\<lambda>device nls.
             fold (\<lambda>pad nls'. fold List.insert (pad_netLines pad) nls') (bidev_pads device) nls)
          devices netlines"

text \<open>
  \<open>netSegmentItemsToRemove[key]\<close>: the entry of the key, created empty when the hash
  has none, is modified in place.
\<close>

definition emptyItems :: NetSegmentItems where
  "emptyItems = \<lparr>items_vias = [], items_netpoints = [], items_netlines = []\<rparr>"

definition modifyItems ::
  "BI_NetSegment \<Rightarrow> (NetSegmentItems \<Rightarrow> NetSegmentItems) \<Rightarrow> NetSegmentItemList
     \<Rightarrow> NetSegmentItemList" where
  "modifyItems key f m =
     (if key \<in> fst ` set m
      then map (\<lambda>entry. if fst entry = key then (key, f (snd entry)) else entry) m
      else m @ [(key, f emptyItems)])"

definition insertVia :: "BI_Via \<Rightarrow> NetSegmentItemList \<Rightarrow> NetSegmentItemList" where
  "insertVia via =
     modifyItems (bivia_netSegment via)
       (\<lambda>items. items\<lparr>items_vias := List.insert via (items_vias items)\<rparr>)"

definition insertNetLine :: "BI_NetLine \<Rightarrow> NetSegmentItemList \<Rightarrow> NetSegmentItemList" where
  "insertNetLine netline =
     modifyItems (netline_netSegment netline)
       (\<lambda>items. items\<lparr>items_netlines := List.insert netline (items_netlines items)\<rparr>)"

text \<open>"determine all affected netsegments and their items to remove".\<close>

definition determineItemsToRemove :: "BI_Via list \<Rightarrow> BI_NetLine list \<Rightarrow> NetSegmentItemList" where
  "determineItemsToRemove vias netlines = fold insertNetLine netlines (fold insertVia vias [])"

text \<open>
  \<open>convertAnchor\<close>: the three alternatives of the anchor in the order of the source. Its
  last branch (none of the three) cannot be reached by a value of the union.
\<close>

definition convertAnchor ::
  "Project \<Rightarrow> TraceAnchor \<Rightarrow> (Uuid \<times> NetPoint) list \<Rightarrow> (Uuid \<times> Via) list
     \<Rightarrow> TraceAnchor option" where
  "convertAnchor prj anchor netPointMap viaMap =
     (case anchor of
        TA_netPoint uuid \<Rightarrow>
          map_option (\<lambda>np. TA_netPoint (mUuid np)) (map_of netPointMap uuid)
      | TA_via uuid \<Rightarrow> map_option (\<lambda>v. TA_via (via_uuid v)) (map_of viaMap uuid)
      | TA_pad device pad \<Rightarrow>
          (case getDeviceInstanceByComponentUuid prj device of
             None \<Rightarrow> None
           | Some d \<Rightarrow> map_option (\<lambda>p. TA_pad device (pad_libPadUuid p)) (getPad d pad)))"

text \<open>One round of "create new sub-netsegments" in \<open>splitUpNetSegment\<close>.\<close>

definition createSubNetSegment ::
  "EditSem \<Rightarrow> BI_NetSegment \<Rightarrow> BoardSegment \<Rightarrow> (unit, EditGroup) action" where
  "createSubNetSegment sem netsegment subsegment =
     bindA (execNewChildCmd sem (CmdBoardNetSegmentAdd (netsegment_netSignal netsegment) None))
       (\<lambda>r.
     case getNetSegment r of
       None \<Rightarrow> throwA NullPointer
     | Some newNetSegment \<Rightarrow>
     bindA (foldA (\<lambda>netpoint (netPointMap, netpoints).
                     bindA createRandom (\<lambda>uuid.
                       let np = \<lparr>mUuid = uuid, mPosition = mPosition netpoint\<rparr>
                       in returnA ((mUuid netpoint, np) # netPointMap, netpoints @ [np])))
                  (segment_netpoints subsegment) ([], []))
       (\<lambda>(netPointMap, netpoints).
     let viaMap = fold (\<lambda>via m. (via_uuid via, via) # m) (segment_vias subsegment) []
     in
     bindA (foldA (\<lambda>trace netlines.
                     bindA (getsA model) (\<lambda>prj.
                       addNetLine_guarded
                         (convertAnchor prj (trace_startPoint trace) netPointMap viaMap)
                         (convertAnchor prj (trace_endPoint trace) netPointMap viaMap)
                         (getLayer prj (trace_layer trace))
                         (trace_width trace) netlines))
                  (segment_traces subsegment) [])
       (\<lambda>netlines.
     bindA (execNewChildCmd sem
              (CmdBoardNetSegmentAddElements newNetSegment (segment_vias subsegment)
                 netpoints netlines))
       (\<lambda>r'. returnA ()))))"

definition logSplitterCall :: "BI_NetSegment \<Rightarrow> (unit, EditGroup) action" where
  "logSplitterCall netsegment g =
     (Inr (), g\<lparr>splitterCalls := splitterCalls g @ [netsegment]\<rparr>)"

definition splitUpNetSegment ::
  "EditSem \<Rightarrow> BoardSplitter \<Rightarrow> BI_NetSegment \<Rightarrow> NetSegmentItems \<Rightarrow> (unit, EditGroup) action" where
  "splitUpNetSegment sem splitter netsegment itemsToRemove =
     (let netpoints = filter (\<lambda>np. np \<notin> set (items_netpoints itemsToRemove))
                        (remdups (netsegment_netPoints netsegment));
          vias = map bivia_via
                   (filter (\<lambda>v. v \<notin> set (items_vias itemsToRemove))
                      (remdups (getVias netsegment)));
          traces = map netline_trace
                     (filter (\<lambda>n. n \<notin> set (items_netlines itemsToRemove))
                        (remdups (getNetLines netsegment)))
      in bindA (logSplitterCall netsegment) (\<lambda>u.
         let subsegments = splitter netpoints vias traces
         in bindA (execNewChildCmd sem (CmdBoardNetSegmentRemove netsegment)) (\<lambda>r.
            forA subsegments (createSubNetSegment sem netsegment))))"

text \<open>One round of "remove vias/netlines/netpoints/netsegments".\<close>

definition removeNetSegmentItems ::
  "EditSem \<Rightarrow> BoardSplitter \<Rightarrow> BI_NetSegment \<times> NetSegmentItems \<Rightarrow> (unit, EditGroup) action" where
  "removeNetSegmentItems sem splitter it =
     (let removeAllVias = (set (items_vias (snd it)) = set (getVias (fst it)));
          removeAllNetLines = (set (items_netlines (snd it)) = set (getNetLines (fst it)))
      in if removeAllVias \<and> removeAllNetLines
         then bindA (execNewChildCmd sem (CmdBoardNetSegmentRemove (fst it))) (\<lambda>r. returnA ())
         else splitUpNetSegment sem splitter (fst it) (snd it))"

definition removeStrokeText ::
  "EditSem \<Rightarrow> BI_Device list \<Rightarrow> BI_StrokeText \<Rightarrow> (unit, EditGroup) action" where
  "removeStrokeText sem deviceInstances text =
     (case bitext_footprint text of
        Some footprint \<Rightarrow>
          (if footprint \<notin> bidev_componentInstanceUuid ` set deviceInstances
           then bindA (execNewChildCmd sem (CmdFootprintStrokeTextRemove footprint text))
                  (\<lambda>r. returnA ())
           else returnA ())
      | None \<Rightarrow>
          bindA (execNewChildCmd sem (CmdBoardStrokeTextRemove text)) (\<lambda>r. returnA ()))"

definition execChild :: "EditSem \<Rightarrow> Cmd \<Rightarrow> (unit, EditGroup) action" where
  "execChild sem cmd = bindA (execNewChildCmd sem cmd) (\<lambda>r. returnA ())"

text \<open>
  The local variable \<open>netSegmentItemsToRemove\<close> of \<open>performExecute\<close>, as it stands when
  the loop over it starts.
\<close>

definition netSegmentItemsToRemove :: "CmdRemoveBoardItems \<Rightarrow> NetSegmentItemList" where
  "netSegmentItemsToRemove this =
     (let netLines = addNetLinesOfDevices (mDeviceInstances this) (mNetLines this)
      in determineItemsToRemove (mVias this) netLines)"

text \<open>The body of \<open>CmdRemoveBoardItems::performExecute\<close> between the guard and its dismissal.\<close>

definition CmdRemoveBoardItems_body ::
  "EditSem \<Rightarrow> BoardSplitter \<Rightarrow> CmdRemoveBoardItems \<Rightarrow> (unit, EditGroup) action" where
  "CmdRemoveBoardItems_body sem splitter this =
     (bindA (forA (netSegmentItemsToRemove this) (removeNetSegmentItems sem splitter)) (\<lambda>u.
      bindA (forA (mDeviceInstances this)
               (\<lambda>device. execChild sem (CmdDeviceInstanceRemove device))) (\<lambda>u.
      bindA (forA (mPlanes this) (\<lambda>plane. execChild sem (CmdBoardPlaneRemove plane))) (\<lambda>u.
      bindA (forA (mPolygons this)
               (\<lambda>polygon. execChild sem (CmdBoardPolygonRemove polygon))) (\<lambda>u.
      bindA (forA (mStrokeTexts this) (removeStrokeText sem (mDeviceInstances this))) (\<lambda>u.
      bindA (forA (mHoles this) (\<lambda>hole. execChild sem (CmdBoardHoleRemove hole))) (\<lambda>u.
      bindA (getsA getChildCount) (\<lambda>n.
        if n > 0 then execChild sem CmdRemoveUnusedLibraryElements else returnA ()))))))))"

definition CmdRemoveBoardItems_performExecute ::
  "EditSem \<Rightarrow> BoardSplitter \<Rightarrow> CmdRemoveBoardItems \<Rightarrow> (bool, EditGroup) action" where
  "CmdRemoveBoardItems_performExecute sem splitter this =
     guardedExecute sem (CmdRemoveBoardItems_body sem splitter this)"

section \<open>CmdPasteBoardItems (cmdpasteboarditems.cpp)\<close>

text \<open>
  The constructors of the library elements load an element from a directory of the
  payload, and the constructor of \<open>BI_Device\<close> looks its library device and package up
  in the project library; each of them throws when what it needs is not there. Their
  sources are missing; the model keeps them as small as that.
\<close>

definition loadLibDevice :: "Directory \<Rightarrow> Exception + LibDevice" where
  "loadLibDevice dir = (case dir of DeviceDir d \<Rightarrow> Inr d | _ \<Rightarrow> Inl RuntimeError)"

definition loadLibPackage :: "Directory \<Rightarrow> Exception + LibPackage" where
  "loadLibPackage dir = (case dir of PackageDir d \<Rightarrow> Inr d | _ \<Rightarrow> Inl RuntimeError)"

definition BI_Device_new ::
  "Project \<Rightarrow> Uuid \<Rightarrow> Uuid \<Rightarrow> Uuid \<Rightarrow> Point \<Rightarrow> Angle \<Rightarrow> bool \<Rightarrow> Exception + BI_Device" where
  "BI_Device_new prj cmpInst libDeviceUuid libFootprintUuid position rotation mirrored =
     (case getLibDevice prj libDeviceUuid of
        None \<Rightarrow> Inl RuntimeError
      | Some libDev \<Rightarrow>
          (case getLibPackage prj (libdev_packageUuid libDev) of
             None \<Rightarrow> Inl RuntimeError
           | Some libPkg \<Rightarrow>
               Inr \<lparr>bidev_componentInstanceUuid = cmpInst, bidev_libDevice = libDev,
                    bidev_libPackage = libPkg, bidev_libFootprintUuid = libFootprintUuid,
                    bidev_position = position, bidev_rotation = rotation,
                    bidev_isMirrored = mirrored, bidev_strokeTexts = [],
                    bidev_pads = map (\<lambda>u. \<lparr>pad_libPadUuid = u, pad_netLines = []\<rparr>)
                                   (libpkg_pads libPkg)\<rparr>))"

text \<open>\<open>CmdPasteBoardItems::getOrCreateNetSignal\<close>; the result is the pointer it returns.\<close>

definition getOrCreateNetSignal :: "EditSem \<Rightarrow> string \<Rightarrow> (NetSignal option, EditGroup) action" where
  "getOrCreateNetSignal sem name =
     bindA (getsA model) (\<lambda>prj.
     case getNetSignalByName prj name of
       Some netSignal \<Rightarrow> returnA (Some netSignal)
     | None \<Rightarrow>
         bindA (case getNetClassByName prj ''default'' of
                  Some netclass \<Rightarrow> returnA netclass
                | None \<Rightarrow>
                    bindA (execNewChildCmd sem (CmdNetClassAdd ''default'')) (\<lambda>r.
                    case getNetClass r of
                      None \<Rightarrow> throwA NullPointer
                    | Some netclass \<Rightarrow> returnA netclass))
           (\<lambda>netclass.
         bindA (execNewChildCmd sem (CmdNetSignalAdd netclass)) (\<lambda>r.
         returnA (getNetSignal r))))"

text \<open>\<open>*getOrCreateNetSignal(name)\<close>: the pointer is dereferenced at once.\<close>

definition derefNetSignal :: "EditSem \<Rightarrow> string \<Rightarrow> (NetSignal, EditGroup) action" where
  "derefNetSignal sem name =
     bindA (getOrCreateNetSignal sem name) (\<lambda>p.
     case p of None \<Rightarrow> throwA NullPointer | Some netSignal \<Rightarrow> returnA netSignal)"

text \<open>
  One round of "Paste devices which do not yet exist on the board"; \<open>continue\<close> leaves
  the round with the set of pasted devices as it is.
\<close>

definition pasteStrokeTexts :: "Point \<Rightarrow> StrokeText list \<Rightarrow> (StrokeText list, EditGroup) action" where
  "pasteStrokeTexts mPosOffset texts =
     foldA (\<lambda>text copies.
              bindA createRandom (\<lambda>uuid.
                returnA (copies @
                  [text\<lparr>stroketext_uuid := uuid,
                        stroketext_position := point_add (stroketext_position text) mPosOffset\<rparr>])))
           texts []"

definition pasteDevice ::
  "EditSem \<Rightarrow> BoardClipboardData \<Rightarrow> Point \<Rightarrow> CD_Device \<Rightarrow> Uuid list
     \<Rightarrow> (Uuid list, EditGroup) action" where
  "pasteDevice sem mData mPosOffset dev pastedDevices =
     bindA (getsA model) (\<lambda>prj.
     case getComponentInstanceByUuid prj (cd_componentUuid dev) of
       None \<Rightarrow> returnA pastedDevices
     | Some cmpInst \<Rightarrow>
     (case getDeviceInstanceByComponentUuid prj (cd_componentUuid dev) of
       Some devInst \<Rightarrow> returnA pastedDevices
     | None \<Rightarrow>
     bindA (case getLibDevice prj (cd_libDeviceUuid dev) of
              Some libDev \<Rightarrow> returnA (libdev_packageUuid libDev)
            | None \<Rightarrow>
                bindA (liftE (loadLibDevice
                         (getDirectory (data_fileSystem mData) (DevPath (cd_libDeviceUuid dev)))))
                  (\<lambda>newLibDev.
                bindA (execNewChildCmd sem (CmdProjectLibraryAddDevice newLibDev)) (\<lambda>r.
                returnA (libdev_packageUuid newLibDev))))
       (\<lambda>pgkUuid.
     bindA (getsA model) (\<lambda>prj1.
     bindA (case getLibPackage prj1 pgkUuid of
              Some libPkg \<Rightarrow> returnA ()
            | None \<Rightarrow>
                bindA (liftE (loadLibPackage
                         (getDirectory (data_fileSystem mData) (PkgPath pgkUuid))))
                  (\<lambda>newLibPgk.
                execChild sem (CmdProjectLibraryAddPackage newLibPgk)))
       (\<lambda>u.
     bindA (getsA model) (\<lambda>prj2.
     bindA (liftE (BI_Device_new prj2 cmpInst (cd_libDeviceUuid dev) (cd_libFootprintUuid dev)
                     (point_add (cd_position dev) mPosOffset) (cd_rotation dev)
                     (cd_mirrored dev)))
       (\<lambda>device.
     bindA (pasteStrokeTexts mPosOffset (cd_strokeTexts dev)) (\<lambda>texts.
     bindA (execNewChildCmd sem (CmdDeviceInstanceAdd (device\<lparr>bidev_strokeTexts := texts\<rparr>)))
       (\<lambda>r.
     returnA (List.insert (cd_componentUuid dev) pastedDevices))))))))))"

text \<open>
  One round of the loop over the traces of a pasted net segment. Both \<open>switch\<close>
  statements that would resolve the anchors are commented out in the source: \<open>start\<close>
  and \<open>end\<close> are still the null pointers they were initialised with when the guard is
  reached.
\<close>

definition pasteTrace :: "Trace \<Rightarrow> Trace list \<Rightarrow> (Trace list, EditGroup) action" where
  "pasteTrace trace netlines =
     (let startA = None;
          endA = None
      in bindA (getsA model) (\<lambda>prj.
           addNetLine_guarded startA endA (getLayer prj (trace_layer trace))
             (trace_width trace) netlines))"

text \<open>One round of "Paste net segments".\<close>

definition pasteNetSegment :: "EditSem \<Rightarrow> Point \<Rightarrow> CD_NetSegment \<Rightarrow> (unit, EditGroup) action" where
  "pasteNetSegment sem mPosOffset seg =
     bindA (derefNetSignal sem (cd_netName seg)) (\<lambda>netSignal.
     bindA createRandom (\<lambda>segUuid.
     let copy = \<lparr>netsegment_uuid = segUuid, netsegment_netSignal = netSignal,
                 netsegment_vias = [], netsegment_netPoints = [], netsegment_netLines = []\<rparr>
     in
     bindA (execNewChildCmd sem (CmdBoardNetSegmentAdd netSignal (Some copy))) (\<lambda>r.
     bindA (foldA (\<lambda>v (viaMap, vias).
                     bindA createRandom (\<lambda>uuid.
                       let via = \<lparr>via_uuid = uuid,
                                  via_position = point_add (via_position v) mPosOffset,
                                  via_shape = via_shape v, via_size = via_size v,
                                  via_drillDiameter = via_drillDiameter v\<rparr>
                       in returnA ((via_uuid v, via) # viaMap, vias @ [via])))
                  (cd_vias seg) ([], []))
       (\<lambda>(viaMap, vias).
     bindA (foldA (\<lambda>np (netPointMap, netpoints).
                     bindA createRandom (\<lambda>uuid.
                       let netpoint = \<lparr>mUuid = uuid,
                                       mPosition = point_add (mPosition np) mPosOffset\<rparr>
                       in returnA ((mUuid np, netpoint) # netPointMap, netpoints @ [netpoint])))
                  (cd_points seg) ([], []))
       (\<lambda>(netPointMap, netpoints).
     bindA (foldA pasteTrace (cd_traces seg) []) (\<lambda>netlines.
     execChild sem (CmdBoardNetSegmentAddElements copy vias netpoints netlines)))))))"

definition pastePlane :: "EditSem \<Rightarrow> Point \<Rightarrow> CD_Plane \<Rightarrow> (unit, EditGroup) action" where
  "pastePlane sem mPosOffset plane =
     bindA createRandom (\<lambda>uuid.
     bindA (derefNetSignal sem (cdplane_netSignalName plane)) (\<lambda>netSignal.
     execChild sem
       (CmdBoardPlaneAdd
          \<lparr>plane_uuid = uuid, plane_layerName = cdplane_layer plane,
           plane_netSignal = netSignal,
           plane_outline = path_translated mPosOffset (cdplane_outline plane),
           plane_minWidth = cdplane_minWidth plane,
           plane_minClearance = cdplane_minClearance plane,
           plane_keepOrphans = cdplane_keepOrphans plane,
           plane_priority = cdplane_priority plane,
           plane_connectStyle = cdplane_connectStyle plane\<rparr>)))"

definition pastePolygon :: "EditSem \<Rightarrow> Point \<Rightarrow> Polygon \<Rightarrow> (unit, EditGroup) action" where
  "pastePolygon sem mPosOffset polygon =
     bindA createRandom (\<lambda>uuid.
     execChild sem
       (CmdBoardPolygonAdd
          \<lparr>bipolygon_polygon =
             polygon\<lparr>polygon_uuid := uuid,
                     polygon_path := path_translated mPosOffset (polygon_path polygon)\<rparr>\<rparr>))"

definition pasteStrokeText :: "EditSem \<Rightarrow> Point \<Rightarrow> StrokeText \<Rightarrow> (unit, EditGroup) action" where
  "pasteStrokeText sem mPosOffset text =
     bindA createRandom (\<lambda>uuid.
     execChild sem
       (CmdBoardStrokeTextAdd
          \<lparr>bitext_text =
             text\<lparr>stroketext_uuid := uuid,
                  stroketext_position := point_add (stroketext_position text) mPosOffset\<rparr>,
           bitext_footprint = None\<rparr>))"

definition pasteHole :: "EditSem \<Rightarrow> Point \<Rightarrow> Hole \<Rightarrow> (unit, EditGroup) action" where
  "pasteHole sem mPosOffset hole =
     bindA createRandom (\<lambda>uuid.
     execChild sem
       (CmdBoardHoleAdd
          \<lparr>bihole_hole =
             hole\<lparr>hole_uuid := uuid,
                  hole_position := point_add (hole_position hole) mPosOffset\<rparr>\<rparr>))"

text \<open>The body of \<open>CmdPasteBoardItems::performExecute\<close> between the guard and its dismissal.\<close>

definition CmdPasteBoardItems_body ::
  "EditSem \<Rightarrow> BoardClipboardData \<Rightarrow> Point \<Rightarrow> (unit, EditGroup) action" where
  "CmdPasteBoardItems_body sem mData mPosOffset =
     bindA (foldA (pasteDevice sem mData mPosOffset) (data_devices mData) [])
       (\<lambda>pastedDevices.
     bindA (forA (data_netSegments mData) (pasteNetSegment sem mPosOffset)) (\<lambda>u.
     bindA (forA (data_planes mData) (pastePlane sem mPosOffset)) (\<lambda>u.
     bindA (forA (data_polygons mData) (pastePolygon sem mPosOffset)) (\<lambda>u.
     bindA (forA (data_strokeTexts mData) (pasteStrokeText sem mPosOffset)) (\<lambda>u.
     forA (data_holes mData) (pasteHole sem mPosOffset))))))"

definition CmdPasteBoardItems_performExecute ::
  "EditSem \<Rightarrow> BoardClipboardData \<Rightarrow> Point \<Rightarrow> (bool, EditGroup) action" where
  "CmdPasteBoardItems_performExecute sem mData mPosOffset =
     guardedExecute sem (CmdPasteBoardItems_body sem mData mPosOffset)"

section \<open>Properties of NetPoint\<close>

text \<open>
  C10. For every NetPoint and every point \<open>p\<close>: when \<open>p\<close> is the current position,
  \<open>setPosition p\<close> returns false, leaves the NetPoint as it was and notifies nothing;
  otherwise it returns true, the position becomes \<open>p\<close> and exactly one event,
  \<open>PositionChanged\<close>, is notified. The uuid is the same after the call in both cases.
\<close>

theorem setPosition_spec:
  "(p = mPosition np \<longrightarrow> setPosition p np = (False, np, [])) \<and>
   (p \<noteq> mPosition np \<longrightarrow>
      fst (setPosition p np) = True \<and>
      mPosition (fst (snd (setPosition p np))) = p \<and>
      snd (snd (setPosition p np)) = [PositionChanged]) \<and>
   mUuid (fst (snd (setPosition p np))) = mUuid np"
  by (simp add: setPosition_def)

theorem setPosition_spec_witness:
  "setPosition (1, 2) \<lparr>mUuid = 7, mPosition = (1, 2)\<rparr>
     = (False, \<lparr>mUuid = 7, mPosition = (1, 2)\<rparr>, []) \<and>
   fst (setPosition (3, 4) \<lparr>mUuid = 7, mPosition = (1, 2)\<rparr>) = True \<and>
   mPosition (fst (snd (setPosition (3, 4) \<lparr>mUuid = 7, mPosition = (1, 2)\<rparr>))) = (3, 4) \<and>
   snd (snd (setPosition (3, 4) \<lparr>mUuid = 7, mPosition = (1, 2)\<rparr>)) = [PositionChanged] \<and>
   mUuid (fst (snd (setPosition (3, 4) \<lparr>mUuid = 7, mPosition = (1, 2)\<rparr>))) = 7"
  using setPosition_spec [of "(1, 2)" "\<lparr>mUuid = 7, mPosition = (1, 2)\<rparr>"]
        setPosition_spec [of "(3, 4)" "\<lparr>mUuid = 7, mPosition = (1, 2)\<rparr>"]
  by simp

section \<open>Properties of the clipboard builder\<close>

definition cdDevice_of :: "BI_Device \<Rightarrow> CD_Device" where
  "cdDevice_of device =
     \<lparr>cd_componentUuid = bidev_componentInstanceUuid device,
      cd_libDeviceUuid = libdev_uuid (bidev_libDevice device),
      cd_libFootprintUuid = bidev_libFootprintUuid device,
      cd_position = bidev_position device,
      cd_rotation = bidev_rotation device,
      cd_mirrored = bidev_isMirrored device,
      cd_strokeTexts = bidev_strokeTexts device\<rparr>"

definition cdPlane_of :: "BI_Plane \<Rightarrow> CD_Plane" where
  "cdPlane_of plane =
     \<lparr>cdplane_uuid = plane_uuid plane,
      cdplane_layer = plane_layerName plane,
      cdplane_netSignalName = netsignal_name (plane_netSignal plane),
      cdplane_outline = plane_outline plane,
      cdplane_minWidth = plane_minWidth plane,
      cdplane_minClearance = plane_minClearance plane,
      cdplane_keepOrphans = plane_keepOrphans plane,
      cdplane_priority = plane_priority plane,
      cdplane_connectStyle = plane_connectStyle plane\<rparr>"

lemma fold_generate_addDevice:
  "data_devices (fold generate_addDevice ds data) = data_devices data @ map cdDevice_of ds \<and>
   data_netSegments (fold generate_addDevice ds data) = data_netSegments data \<and>
   data_planes (fold generate_addDevice ds data) = data_planes data \<and>
   data_polygons (fold generate_addDevice ds data) = data_polygons data \<and>
   data_strokeTexts (fold generate_addDevice ds data) = data_strokeTexts data \<and>
   data_holes (fold generate_addDevice ds data) = data_holes data"
  by (induction ds arbitrary: data) (simp_all add: generate_addDevice_def cdDevice_of_def Let_def)

lemma fold_generate_addPlane:
  "data_planes (fold generate_addPlane ps data) = data_planes data @ map cdPlane_of ps \<and>
   data_devices (fold generate_addPlane ps data) = data_devices data \<and>
   data_netSegments (fold generate_addPlane ps data) = data_netSegments data \<and>
   data_polygons (fold generate_addPlane ps data) = data_polygons data \<and>
   data_strokeTexts (fold generate_addPlane ps data) = data_strokeTexts data \<and>
   data_holes (fold generate_addPlane ps data) = data_holes data"
  by (induction ps arbitrary: data) (simp_all add: generate_addPlane_def cdPlane_of_def)

lemma fold_generate_addPolygon:
  "data_polygons (fold generate_addPolygon ps data)
     = data_polygons data @ map bipolygon_polygon ps \<and>
   data_devices (fold generate_addPolygon ps data) = data_devices data \<and>
   data_netSegments (fold generate_addPolygon ps data) = data_netSegments data \<and>
   data_planes (fold generate_addPolygon ps data) = data_planes data \<and>
   data_strokeTexts (fold generate_addPolygon ps data) = data_strokeTexts data \<and>
   data_holes (fold generate_addPolygon ps data) = data_holes data"
  by (induction ps arbitrary: data) (simp_all add: generate_addPolygon_def)

lemma fold_generate_addStrokeText:
  "data_strokeTexts (fold generate_addStrokeText ts data)
     = data_strokeTexts data @ map bitext_text ts \<and>
   data_devices (fold generate_addStrokeText ts data) = data_devices data \<and>
   data_netSegments (fold generate_addStrokeText ts data) = data_netSegments data \<and>
   data_planes (fold generate_addStrokeText ts data) = data_planes data \<and>
   data_polygons (fold generate_addStrokeText ts data) = data_polygons data \<and>
   data_holes (fold generate_addStrokeText ts data) = data_holes data"
  by (induction ts arbitrary: data) (simp_all add: generate_addStrokeText_def)

lemma fold_generate_addHole:
  "data_holes (fold generate_addHole hs data) = data_holes data @ map bihole_hole hs \<and>
   data_devices (fold generate_addHole hs data) = data_devices data \<and>
   data_netSegments (fold generate_addHole hs data) = data_netSegments data \<and>
   data_planes (fold generate_addHole hs data) = data_planes data \<and>
   data_polygons (fold generate_addHole hs data) = data_polygons data \<and>
   data_strokeTexts (fold generate_addHole hs data) = data_strokeTexts data"
  by (induction hs arbitrary: data) (simp_all add: generate_addHole_def)

text \<open>
  C9. For every board (hence every selection) and every cursor position, the payload
  that \<open>generate\<close> returns has an empty list of net segments, whatever vias and net
  lines are selected; its devices, planes, polygons, stroke texts and holes are those of
  the selection, in order.
\<close>

theorem generate_exports_no_netsegments:
  "data_netSegments (generate mBoard cursorPos) = [] \<and>
   data_devices (generate mBoard cursorPos)
     = map cdDevice_of (query_deviceInstances (board_selectionQuery mBoard)) \<and>
   data_planes (generate mBoard cursorPos)
     = map cdPlane_of (query_planes (board_selectionQuery mBoard)) \<and>
   data_polygons (generate mBoard cursorPos)
     = map bipolygon_polygon (query_polygons (board_selectionQuery mBoard)) \<and>
   data_strokeTexts (generate mBoard cursorPos)
     = map bitext_text (query_strokeTexts (board_selectionQuery mBoard)) \<and>
   data_holes (generate mBoard cursorPos)
     = map bihole_hole (query_holes (board_selectionQuery mBoard))"
  by (simp add: generate_def Let_def fold_generate_addDevice fold_generate_addPlane
      fold_generate_addPolygon fold_generate_addStrokeText fold_generate_addHole
      BoardClipboardData_new_def)

section \<open>A reference semantics of the child commands\<close>

fun indexOf :: "'a \<Rightarrow> 'a list \<Rightarrow> nat option" where
  "indexOf x [] = None"
| "indexOf x (y # ys) = (if x = y then Some 0 else map_option Suc (indexOf x ys))"

definition removeAt :: "nat \<Rightarrow> 'a list \<Rightarrow> 'a list" where
  "removeAt i xs = take i xs @ drop (Suc i) xs"

definition insertAt :: "nat \<Rightarrow> 'a \<Rightarrow> 'a list \<Rightarrow> 'a list" where
  "insertAt i x xs = take i xs @ x # drop i xs"

definition addTo :: "'a \<Rightarrow> 'a list \<Rightarrow> Exception + (CmdResult \<times> 'a list)" where
  "addTo x xs = (if x \<in> set xs then Inl LogicError else Inr (NoResult, xs @ [x]))"

definition removeFrom :: "'a \<Rightarrow> 'a list \<Rightarrow> Exception + (CmdResult \<times> 'a list)" where
  "removeFrom x xs =
     (case indexOf x xs of None \<Rightarrow> Inl LogicError | Some i \<Rightarrow> Inr (AtIndex i, removeAt i xs))"

definition putBack :: "'a \<Rightarrow> CmdResult \<Rightarrow> 'a list \<Rightarrow> 'a list" where
  "putBack x r xs = (case r of AtIndex i \<Rightarrow> insertAt i x xs | _ \<Rightarrow> xs)"

definition onField ::
  "('a list \<Rightarrow> Project) \<Rightarrow> Exception + (CmdResult \<times> 'a list) \<Rightarrow> Exception + (CmdResult \<times> Project)" where
  "onField put res = (case res of Inl e \<Rightarrow> Inl e | Inr (r, xs) \<Rightarrow> Inr (r, put xs))"

definition freshUuid :: "Uuid list \<Rightarrow> Uuid" where
  "freshUuid used = Suc (fold max used 0)"

lemma indexOf_Some: "indexOf x xs = Some i \<Longrightarrow> i < length xs \<and> xs ! i = x"
  by (induction xs arbitrary: i) (auto split: if_splits)

lemma insertAt_removeAt: "indexOf x xs = Some i \<Longrightarrow> insertAt i x (removeAt i xs) = xs"
proof -
  assume "indexOf x xs = Some i"
  then have i: "i < length xs" and x: "xs ! i = x" using indexOf_Some by fastforce+
  have "take i (removeAt i xs) = take i xs" using i by (simp add: removeAt_def)
  moreover have "drop i (removeAt i xs) = drop (Suc i) xs" using i by (simp add: removeAt_def)
  moreover have "take i xs @ x # drop (Suc i) xs = xs"
    by (metis id_take_nth_drop i x)
  ultimately show ?thesis by (simp add: insertAt_def)
qed

text \<open>
  Modelled from the spec: the child commands, whose sources are missing. Each is the
  atomic unit of a reversible structural edit: it adds one element or removes one
  (remove mirrors add), and it fails with the model untouched when the element to add
  is already there or the element to remove is not.
\<close>

definition autoNetSignalName :: "Project \<Rightarrow> string" where
  "autoNetSignalName prj =
     replicate (Suc (fold max (map (\<lambda>n. length (netsignal_name n)) (prj_netSignals prj)) 0))
       (CHR ''N'')"

definition usedLibDevices :: "Project \<Rightarrow> LibDevice list" where
  "usedLibDevices prj =
     filter (\<lambda>d. d \<in> bidev_libDevice ` set (prj_deviceInstances prj)) (prj_libDevices prj)"

definition usedLibPackages :: "Project \<Rightarrow> LibPackage list" where
  "usedLibPackages prj =
     filter (\<lambda>d. d \<in> bidev_libPackage ` set (prj_deviceInstances prj)) (prj_libPackages prj)"

definition withElements :: "BI_NetSegment \<Rightarrow> Via list \<Rightarrow> NetPoint list \<Rightarrow> Trace list \<Rightarrow> BI_NetSegment" where
  "withElements seg vias netpoints netlines =
     seg\<lparr>netsegment_vias := netsegment_vias seg @ vias,
         netsegment_netPoints := netsegment_netPoints seg @ netpoints,
         netsegment_netLines := netsegment_netLines seg @ netlines\<rparr>"

fun std_execute :: "Cmd \<Rightarrow> Project \<Rightarrow> Exception + (CmdResult \<times> Project)" where
  "std_execute (CmdBoardNetSegmentRemove seg) prj =
     onField (\<lambda>xs. prj\<lparr>prj_netSegments := xs\<rparr>) (removeFrom seg (prj_netSegments prj))"
| "std_execute (CmdBoardNetSegmentAdd netSignal None) prj =
     (let seg = \<lparr>netsegment_uuid = freshUuid (map netsegment_uuid (prj_netSegments prj)),
                 netsegment_netSignal = netSignal, netsegment_vias = [],
                 netsegment_netPoints = [], netsegment_netLines = []\<rparr>
      in Inr (NetSegmentResult seg, prj\<lparr>prj_netSegments := prj_netSegments prj @ [seg]\<rparr>))"
| "std_execute (CmdBoardNetSegmentAdd netSignal (Some seg)) prj =
     (if seg \<in> set (prj_netSegments prj) then Inl LogicError
      else Inr (NetSegmentResult seg, prj\<lparr>prj_netSegments := prj_netSegments prj @ [seg]\<rparr>))"
| "std_execute (CmdBoardNetSegmentAddElements seg vias netpoints netlines) prj =
     (case indexOf seg (prj_netSegments prj) of
        None \<Rightarrow> Inl LogicError
      | Some i \<Rightarrow>
          Inr (AtIndex i,
               prj\<lparr>prj_netSegments :=
                     (prj_netSegments prj)[i := withElements seg vias netpoints netlines]\<rparr>))"
| "std_execute (CmdDeviceInstanceRemove device) prj =
     onField (\<lambda>xs. prj\<lparr>prj_deviceInstances := xs\<rparr>) (removeFrom device (prj_deviceInstances prj))"
| "std_execute (CmdDeviceInstanceAdd device) prj =
     onField (\<lambda>xs. prj\<lparr>prj_deviceInstances := xs\<rparr>) (addTo device (prj_deviceInstances prj))"
| "std_execute (CmdBoardPlaneRemove plane) prj =
     onField (\<lambda>xs. prj\<lparr>prj_planes := xs\<rparr>) (removeFrom plane (prj_planes prj))"
| "std_execute (CmdBoardPlaneAdd plane) prj =
     onField (\<lambda>xs. prj\<lparr>prj_planes := xs\<rparr>) (addTo plane (prj_planes prj))"
| "std_execute (CmdBoardPolygonRemove polygon) prj =
     onField (\<lambda>xs. prj\<lparr>prj_polygons := xs\<rparr>) (removeFrom polygon (prj_polygons prj))"
| "std_execute (CmdBoardPolygonAdd polygon) prj =
     onField (\<lambda>xs. prj\<lparr>prj_polygons := xs\<rparr>) (addTo polygon (prj_polygons prj))"
| "std_execute (CmdFootprintStrokeTextRemove footprint text) prj =
     onField (\<lambda>xs. prj\<lparr>prj_strokeTexts := xs\<rparr>) (removeFrom text (prj_strokeTexts prj))"
| "std_execute (CmdBoardStrokeTextRemove text) prj =
     onField (\<lambda>xs. prj\<lparr>prj_strokeTexts := xs\<rparr>) (removeFrom text (prj_strokeTexts prj))"
| "std_execute (CmdBoardStrokeTextAdd text) prj =
     onField (\<lambda>xs. prj\<lparr>prj_strokeTexts := xs\<rparr>) (addTo text (prj_strokeTexts prj))"
| "std_execute (CmdBoardHoleRemove hole) prj =
     onField (\<lambda>xs. prj\<lparr>prj_holes := xs\<rparr>) (removeFrom hole (prj_holes prj))"
| "std_execute (CmdBoardHoleAdd hole) prj =
     onField (\<lambda>xs. prj\<lparr>prj_holes := xs\<rparr>) (addTo hole (prj_holes prj))"
| "std_execute CmdRemoveUnusedLibraryElements prj =
     Inr (RemovedLibrary (prj_libDevices prj) (prj_libPackages prj),
          prj\<lparr>prj_libDevices := usedLibDevices prj, prj_libPackages := usedLibPackages prj\<rparr>)"
| "std_execute (CmdProjectLibraryAddDevice libDev) prj =
     onField (\<lambda>xs. prj\<lparr>prj_libDevices := xs\<rparr>) (addTo libDev (prj_libDevices prj))"
| "std_execute (CmdProjectLibraryAddPackage libPkg) prj =
     onField (\<lambda>xs. prj\<lparr>prj_libPackages := xs\<rparr>) (addTo libPkg (prj_libPackages prj))"
| "std_execute (CmdNetClassAdd name) prj =
     (if getNetClassByName prj name \<noteq> None then Inl RuntimeError
      else let netclass = \<lparr>netclass_uuid = freshUuid (map netclass_uuid (prj_netClasses prj)),
                            netclass_name = name\<rparr>
           in Inr (NetClassResult netclass,
                   prj\<lparr>prj_netClasses := prj_netClasses prj @ [netclass]\<rparr>))"
| "std_execute (CmdNetSignalAdd netclass) prj =
     (let netSignal = \<lparr>netsignal_uuid = freshUuid (map netsignal_uuid (prj_netSignals prj)),
                       netsignal_name = autoNetSignalName prj,
                       netsignal_netClass = netclass\<rparr>
      in Inr (NetSignalResult netSignal,
              prj\<lparr>prj_netSignals := prj_netSignals prj @ [netSignal]\<rparr>))"

fun std_undo :: "Cmd \<Rightarrow> CmdResult \<Rightarrow> Project \<Rightarrow> Project" where
  "std_undo (CmdBoardNetSegmentRemove seg) r prj =
     prj\<lparr>prj_netSegments := putBack seg r (prj_netSegments prj)\<rparr>"
| "std_undo (CmdBoardNetSegmentAdd netSignal created) r prj =
     prj\<lparr>prj_netSegments := butlast (prj_netSegments prj)\<rparr>"
| "std_undo (CmdBoardNetSegmentAddElements seg vias netpoints netlines) r prj =
     (case r of
        AtIndex i \<Rightarrow> prj\<lparr>prj_netSegments := (prj_netSegments prj)[i := seg]\<rparr>
      | _ \<Rightarrow> prj)"
| "std_undo (CmdDeviceInstanceRemove device) r prj =
     prj\<lparr>prj_deviceInstances := putBack device r (prj_deviceInstances prj)\<rparr>"
| "std_undo (CmdDeviceInstanceAdd device) r prj =
     prj\<lparr>prj_deviceInstances := butlast (prj_deviceInstances prj)\<rparr>"
| "std_undo (CmdBoardPlaneRemove plane) r prj =
     prj\<lparr>prj_planes := putBack plane r (prj_planes prj)\<rparr>"
| "std_undo (CmdBoardPlaneAdd plane) r prj = prj\<lparr>prj_planes := butlast (prj_planes prj)\<rparr>"
| "std_undo (CmdBoardPolygonRemove polygon) r prj =
     prj\<lparr>prj_polygons := putBack polygon r (prj_polygons prj)\<rparr>"
| "std_undo (CmdBoardPolygonAdd polygon) r prj =
     prj\<lparr>prj_polygons := butlast (prj_polygons prj)\<rparr>"
| "std_undo (CmdFootprintStrokeTextRemove footprint text) r prj =
     prj\<lparr>prj_strokeTexts := putBack text r (prj_strokeTexts prj)\<rparr>"
| "std_undo (CmdBoardStrokeTextRemove text) r prj =
     prj\<lparr>prj_strokeTexts := putBack text r (prj_strokeTexts prj)\<rparr>"
| "std_undo (CmdBoardStrokeTextAdd text) r prj =
     prj\<lparr>prj_strokeTexts := butlast (prj_strokeTexts prj)\<rparr>"
| "std_undo (CmdBoardHoleRemove hole) r prj =
     prj\<lparr>prj_holes := putBack hole r (prj_holes prj)\<rparr>"
| "std_undo (CmdBoardHoleAdd hole) r prj = prj\<lparr>prj_holes := butlast (prj_holes prj)\<rparr>"
| "std_undo CmdRemoveUnusedLibraryElements r prj =
     (case r of
        RemovedLibrary devices packages \<Rightarrow>
          prj\<lparr>prj_libDevices := devices, prj_libPackages := packages\<rparr>
      | _ \<Rightarrow> prj)"
| "std_undo (CmdProjectLibraryAddDevice libDev) r prj =
     prj\<lparr>prj_libDevices := butlast (prj_libDevices prj)\<rparr>"
| "std_undo (CmdProjectLibraryAddPackage libPkg) r prj =
     prj\<lparr>prj_libPackages := butlast (prj_libPackages prj)\<rparr>"
| "std_undo (CmdNetClassAdd name) r prj =
     prj\<lparr>prj_netClasses := butlast (prj_netClasses prj)\<rparr>"
| "std_undo (CmdNetSignalAdd netclass) r prj =
     prj\<lparr>prj_netSignals := butlast (prj_netSignals prj)\<rparr>"

definition stdSem :: EditSem where
  "stdSem = \<lparr>cmd_execute = std_execute, cmd_undo = std_undo\<rparr>"

lemma onField_removeFrom:
  "onField put (removeFrom x xs) = Inr (r, s') \<Longrightarrow>
     \<exists>i. indexOf x xs = Some i \<and> r = AtIndex i \<and> s' = put (removeAt i xs)"
  by (auto simp: onField_def removeFrom_def split: option.splits)

lemma onField_addTo:
  "onField put (addTo x xs) = Inr (r, s') \<Longrightarrow> r = NoResult \<and> s' = put (xs @ [x])"
  by (auto simp: onField_def addTo_def split: if_splits)

lemma std_reversible_step:
  "std_execute c s = Inr (r, s') \<Longrightarrow> std_undo c r s' = s"
proof (induction c s rule: std_execute.induct)
  case (4 seg vias netpoints netlines prj)
  then show ?case
    by (auto split: option.splits dest!: indexOf_Some simp: list_update_same_conv)
qed (auto dest!: onField_removeFrom onField_addTo simp: putBack_def insertAt_removeAt Let_def
       split: if_splits)

lemma reversible_stdSem: "reversible stdSem"
  by (simp add: reversible_def stdSem_def std_reversible_step)

text \<open>The reference semantics with one command forced to fail.\<close>

definition failingOn :: "Cmd \<Rightarrow> Exception \<Rightarrow> EditSem" where
  "failingOn cmd e =
     \<lparr>cmd_execute = (\<lambda>c prj. if c = cmd then Inl e else std_execute c prj),
      cmd_undo = std_undo\<rparr>"

lemma reversible_failingOn: "reversible (failingOn cmd e)"
  by (simp add: reversible_def failingOn_def std_reversible_step)


section \<open>A small board\<close>

definition demoNetClass :: NetClass where
  "demoNetClass = \<lparr>netclass_uuid = 1, netclass_name = ''default''\<rparr>"

definition demoNetSignal :: NetSignal where
  "demoNetSignal =
     \<lparr>netsignal_uuid = 2, netsignal_name = ''GND'', netsignal_netClass = demoNetClass\<rparr>"

definition demoVia :: Via where
  "demoVia = \<lparr>via_uuid = 10, via_position = (0, 0), via_shape = Round, via_size = 800000,
               via_drillDiameter = 300000\<rparr>"

definition demoNetPoint :: NetPoint where
  "demoNetPoint = \<lparr>mUuid = 12, mPosition = (5, 0)\<rparr>"

definition demoTrace :: Trace where
  "demoTrace = \<lparr>trace_uuid = 11, trace_layer = ''top_cu'', trace_width = 200000,
                 trace_startPoint = TA_via 10, trace_endPoint = TA_netPoint 12\<rparr>"

definition demoNetSegment :: BI_NetSegment where
  "demoNetSegment =
     \<lparr>netsegment_uuid = 20, netsegment_netSignal = demoNetSignal,
      netsegment_vias = [demoVia], netsegment_netPoints = [demoNetPoint],
      netsegment_netLines = [demoTrace]\<rparr>"

definition demoHole :: BI_Hole where
  "demoHole = \<lparr>bihole_hole = \<lparr>hole_uuid = 30, hole_position = (1, 1), hole_diameter = 1000000\<rparr>\<rparr>"

definition demoProject :: Project where
  "demoProject =
     \<lparr>prj_netClasses = [demoNetClass], prj_netSignals = [demoNetSignal],
      prj_componentInstances = [], prj_libDevices = [], prj_libPackages = [],
      prj_layers = [''top_cu''], prj_deviceInstances = [],
      prj_netSegments = [demoNetSegment], prj_planes = [], prj_polygons = [],
      prj_strokeTexts = [], prj_holes = [demoHole]\<rparr>"

definition demoGroup :: EditGroup where
  "demoGroup = \<lparr>model = demoProject, mChilds = [], history = [], nextUuid = 100,
                 splitterCalls = []\<rparr>"

definition wholeSegment :: BoardSplitter where
  "wholeSegment netpoints vias traces =
     [\<lparr>segment_netpoints = netpoints, segment_vias = vias, segment_traces = traces\<rparr>]"

definition demoBIVia :: BI_Via where
  "demoBIVia = \<lparr>bivia_via = demoVia, bivia_netSegment = demoNetSegment\<rparr>"

definition demoBINetLine :: BI_NetLine where
  "demoBINetLine = \<lparr>netline_trace = demoTrace, netline_netSegment = demoNetSegment\<rparr>"

text \<open>The whole net segment of the board and its hole are selected.\<close>

definition removeSegmentAndHole :: CmdRemoveBoardItems where
  "removeSegmentAndHole =
     \<lparr>mDeviceInstances = [], mVias = [demoBIVia], mNetLines = [demoBINetLine], mPlanes = [],
      mPolygons = [], mStrokeTexts = [], mHoles = [demoHole]\<rparr>"

text \<open>Two holes to paste, and the holes that the paste at offset \<open>(1, 1)\<close> creates for them.\<close>

definition pasteTwoHoles :: BoardClipboardData where
  "pasteTwoHoles =
     (BoardClipboardData_new 0 (0, 0))
       \<lparr>data_holes :=
          [\<lparr>hole_uuid = 40, hole_position = (3, 3), hole_diameter = 1000000\<rparr>,
           \<lparr>hole_uuid = 41, hole_position = (6, 6), hole_diameter = 1000000\<rparr>]\<rparr>"

definition firstPastedHole :: BI_Hole where
  "firstPastedHole =
     \<lparr>bihole_hole = \<lparr>hole_uuid = 100, hole_position = (4, 4), hole_diameter = 1000000\<rparr>\<rparr>"

definition secondPastedHole :: BI_Hole where
  "secondPastedHole =
     \<lparr>bihole_hole = \<lparr>hole_uuid = 101, hole_position = (7, 7), hole_diameter = 1000000\<rparr>\<rparr>"

definition pasteOneTrace :: BoardClipboardData where
  "pasteOneTrace =
     (BoardClipboardData_new 0 (0, 0))
       \<lparr>data_netSegments :=
          [\<lparr>cd_netName = ''GND'', cd_vias = [demoVia], cd_points = [demoNetPoint],
            cd_traces = [demoTrace]\<rparr>]\<rparr>"

definition removeOneHole :: CmdRemoveBoardItems where
  "removeOneHole =
     \<lparr>mDeviceInstances = [], mVias = [], mNetLines = [], mPlanes = [], mPolygons = [],
      mStrokeTexts = [], mHoles = [demoHole]\<rparr>"

section \<open>Invariants of actions\<close>

definition preserves :: "('g \<Rightarrow> bool) \<Rightarrow> ('a, 'g) action \<Rightarrow> bool" where
  "preserves I m = (\<forall>g. I g \<longrightarrow> I (snd (m g)))"

named_theorems preserves_intros

lemma preserves_returnA [preserves_intros]: "preserves I (returnA x)"
  by (simp add: preserves_def returnA_def)

lemma preserves_throwA [preserves_intros]: "preserves I (throwA e)"
  by (simp add: preserves_def throwA_def)

lemma preserves_getsA [preserves_intros]: "preserves I (getsA f)"
  by (simp add: preserves_def getsA_def)

lemma preserves_liftE [preserves_intros]: "preserves I (liftE r)"
  by (simp add: preserves_def liftE_def)

lemma preserves_bindA [preserves_intros]:
  assumes "preserves I m" and "\<And>x. preserves I (f x)"
  shows "preserves I (bindA m f)"
proof -
  have "I (snd (bindA m f g))" if "I g" for g
  proof (cases "m g")
    case (Pair r g')
    have g': "I g'" using assms(1) that Pair by (auto simp: preserves_def)
    show ?thesis
    proof (cases r)
      case (Inl e)
      then show ?thesis using Pair g' by (simp add: bindA_def)
    next
      case (Inr x)
      then show ?thesis using Pair g' assms(2)[of x] by (simp add: bindA_def preserves_def)
    qed
  qed
  then show ?thesis by (simp add: preserves_def)
qed

lemma preserves_foldA [preserves_intros]:
  assumes "\<And>x acc. preserves I (f x acc)"
  shows "preserves I (foldA f xs acc)"
  using assms by (induction xs arbitrary: acc) (auto intro: preserves_returnA preserves_bindA)

lemma preserves_forA [preserves_intros]:
  assumes "\<And>x. preserves I (f x)"
  shows "preserves I (forA xs f)"
  unfolding forA_def using assms by (intro preserves_foldA)

lemma preserves_if [preserves_intros]:
  assumes "c \<Longrightarrow> preserves I a" and "\<not> c \<Longrightarrow> preserves I b"
  shows "preserves I (if c then a else b)"
  using assms by simp

lemma preserves_case_option [preserves_intros]:
  assumes "x = None \<Longrightarrow> preserves I a" and "\<And>y. x = Some y \<Longrightarrow> preserves I (b y)"
  shows "preserves I (case x of None \<Rightarrow> a | Some y \<Rightarrow> b y)"
  using assms by (cases x) simp_all

lemma preserves_case_prod [preserves_intros]:
  assumes "\<And>a b. preserves I (f a b)"
  shows "preserves I (case p of (a, b) \<Rightarrow> f a b)"
  using assms by (cases p) simp

section \<open>Invariants of the group\<close>

text \<open>
  An invariant of the group survives the execution of any child and does not look at
  the identity supply; \<open>logInv\<close> says that it does not look at the splitter log either.
\<close>

definition frameInv :: "(EditGroup \<Rightarrow> bool) \<Rightarrow> bool" where
  "frameInv I = (\<forall>g u. I g \<longrightarrow> I (g\<lparr>nextUuid := u\<rparr>))"

definition logInv :: "(EditGroup \<Rightarrow> bool) \<Rightarrow> bool" where
  "logInv I = (\<forall>g l. I g \<longrightarrow> I (g\<lparr>splitterCalls := l\<rparr>))"

definition groupInv :: "EditSem \<Rightarrow> (EditGroup \<Rightarrow> bool) \<Rightarrow> bool" where
  "groupInv sem I = ((\<forall>cmd. preserves I (execNewChildCmd sem cmd)) \<and> frameInv I)"

lemma groupInv_frame: "groupInv sem I \<Longrightarrow> frameInv I"
  by (simp add: groupInv_def)

lemma preserves_execNewChildCmd [preserves_intros]:
  "groupInv sem I \<Longrightarrow> preserves I (execNewChildCmd sem cmd)"
  by (simp add: groupInv_def)

lemma preserves_execChild [preserves_intros]:
  assumes "groupInv sem I"
  shows "preserves I (execChild sem cmd)"
  unfolding execChild_def
  by (intro preserves_intros assms)

lemma preserves_createRandom [preserves_intros]:
  "frameInv I \<Longrightarrow> preserves I createRandom"
  by (simp add: preserves_def createRandom_def frameInv_def)

lemma preserves_forA_set:
  assumes "\<And>x. x \<in> set xs \<Longrightarrow> preserves I (f x)"
  shows "preserves I (forA xs f)"
  using assms unfolding forA_def
  by (induction xs) (auto intro: preserves_returnA preserves_bindA)

lemma preserves_addNetLine_guarded [preserves_intros]:
  assumes "frameInv I"
  shows "preserves I (addNetLine_guarded startA endA layer width netlines)"
  unfolding addNetLine_guarded_def by (intro preserves_intros assms)

lemma preserves_createSubNetSegment [preserves_intros]:
  assumes "groupInv sem I"
  shows "preserves I (createSubNetSegment sem netsegment subsegment)"
  unfolding createSubNetSegment_def Let_def
  by (intro preserves_intros assms groupInv_frame [OF assms])

lemma preserves_splitUpNetSegment:
  assumes "groupInv sem I" and "preserves I (logSplitterCall netsegment)"
  shows "preserves I (splitUpNetSegment sem splitter netsegment items)"
  unfolding splitUpNetSegment_def Let_def
  by (intro preserves_intros assms groupInv_frame [OF assms(1)])

lemma preserves_removeNetSegmentItems:
  assumes "groupInv sem I"
    and "\<not> (set (items_vias (snd entry)) = set (getVias (fst entry)) \<and>
            set (items_netlines (snd entry)) = set (getNetLines (fst entry)))
         \<Longrightarrow> preserves I (logSplitterCall (fst entry))"
  shows "preserves I (removeNetSegmentItems sem splitter entry)"
  unfolding removeNetSegmentItems_def Let_def
  by (intro preserves_intros preserves_splitUpNetSegment assms groupInv_frame [OF assms(1)])

lemma preserves_removeStrokeText [preserves_intros]:
  assumes "groupInv sem I"
  shows "preserves I (removeStrokeText sem devices text)"
  unfolding removeStrokeText_def
  by (intro preserves_intros assms groupInv_frame [OF assms])

lemma preserves_CmdRemoveBoardItems_body_log:
  assumes "groupInv sem I"
    and "\<And>entry.
           entry \<in> set (netSegmentItemsToRemove this) \<Longrightarrow>
           \<not> (set (items_vias (snd entry)) = set (getVias (fst entry)) \<and>
              set (items_netlines (snd entry)) = set (getNetLines (fst entry))) \<Longrightarrow>
           preserves I (logSplitterCall (fst entry))"
  shows "preserves I (CmdRemoveBoardItems_body sem splitter this)"
  unfolding CmdRemoveBoardItems_body_def Let_def
  apply (rule preserves_bindA)
   apply (rule preserves_forA_set)
   apply (rule preserves_removeNetSegmentItems [OF assms(1)])
   apply (erule (1) assms(2))
  apply (intro preserves_intros assms(1) groupInv_frame [OF assms(1)])
  done

section \<open>Outcomes of actions\<close>

text \<open>
  An action that starts where \<open>C\<close> holds: when it returns it leaves \<open>C\<close>, and when it
  throws \<open>e\<close> it leaves \<open>F e\<close>.
\<close>

definition tracks :: "('g \<Rightarrow> bool) \<Rightarrow> (Exception \<Rightarrow> 'g \<Rightarrow> bool) \<Rightarrow> ('a, 'g) action \<Rightarrow> bool" where
  "tracks C F m = (\<forall>g. C g \<longrightarrow> (case m g of (Inl e, g') \<Rightarrow> F e g' | (Inr x, g') \<Rightarrow> C g'))"

text \<open>An exception thrown where \<open>C\<close> holds, the state untouched, leaves \<open>F\<close>.\<close>

definition raisable :: "('g \<Rightarrow> bool) \<Rightarrow> (Exception \<Rightarrow> 'g \<Rightarrow> bool) \<Rightarrow> bool" where
  "raisable C F = (\<forall>g e. C g \<longrightarrow> F e g)"

named_theorems tracks_intros

lemma tracks_returnA [tracks_intros]: "tracks C F (returnA x)"
  by (simp add: tracks_def returnA_def)

lemma tracks_throwA [tracks_intros]: "raisable C F \<Longrightarrow> tracks C F (throwA e)"
  by (simp add: tracks_def throwA_def raisable_def)

lemma tracks_getsA [tracks_intros]: "tracks C F (getsA f)"
  by (simp add: tracks_def getsA_def)

lemma tracks_liftE [tracks_intros]: "raisable C F \<Longrightarrow> tracks C F (liftE r)"
  by (cases r) (simp_all add: tracks_def liftE_def raisable_def)

lemma tracks_bindA [tracks_intros]:
  assumes "tracks C F m" and "\<And>x. tracks C F (f x)"
  shows "tracks C F (bindA m f)"
proof -
  have "case bindA m f g of (Inl e, g') \<Rightarrow> F e g' | (Inr x, g') \<Rightarrow> C g'" if "C g" for g
  proof (cases "m g")
    case (Pair r g')
    show ?thesis
    proof (cases r)
      case (Inl e)
      then have "F e g'" using assms(1) that Pair by (auto simp: tracks_def)
      then show ?thesis using Pair Inl by (simp add: bindA_def)
    next
      case (Inr x)
      then have "C g'" using assms(1) that Pair by (auto simp: tracks_def)
      then show ?thesis using Pair Inr assms(2) [of x] by (simp add: bindA_def tracks_def)
    qed
  qed
  then show ?thesis by (simp add: tracks_def)
qed

lemma tracks_foldA [tracks_intros]:
  assumes "\<And>x acc. tracks C F (f x acc)"
  shows "tracks C F (foldA f xs acc)"
  using assms by (induction xs arbitrary: acc) (auto intro: tracks_returnA tracks_bindA)

lemma tracks_forA [tracks_intros]:
  assumes "\<And>x. tracks C F (f x)"
  shows "tracks C F (forA xs f)"
  unfolding forA_def using assms by (intro tracks_foldA)

lemma tracks_if [tracks_intros]:
  assumes "c \<Longrightarrow> tracks C F a" and "\<not> c \<Longrightarrow> tracks C F b"
  shows "tracks C F (if c then a else b)"
  using assms by simp

lemma tracks_case_option [tracks_intros]:
  assumes "x = None \<Longrightarrow> tracks C F a" and "\<And>y. x = Some y \<Longrightarrow> tracks C F (b y)"
  shows "tracks C F (case x of None \<Rightarrow> a | Some y \<Rightarrow> b y)"
  using assms by (cases x) simp_all

lemma tracks_case_prod [tracks_intros]:
  assumes "\<And>a b. tracks C F (f a b)"
  shows "tracks C F (case p of (a, b) \<Rightarrow> f a b)"
  using assms by (cases p) simp

text \<open>
  A pair \<open>C\<close>, \<open>F\<close> of the group: kept by the execution of any child, by an exception of
  the composite command itself, and not looking at the identity supply or the splitter
  log. Both composite commands keep such a pair.
\<close>

definition groupTracks ::
  "EditSem \<Rightarrow> (EditGroup \<Rightarrow> bool) \<Rightarrow> (Exception \<Rightarrow> EditGroup \<Rightarrow> bool) \<Rightarrow> bool" where
  "groupTracks sem C F =
     ((\<forall>cmd. tracks C F (execNewChildCmd sem cmd)) \<and> raisable C F \<and> frameInv C \<and> logInv C)"

lemma groupTracks_raisable: "groupTracks sem C F \<Longrightarrow> raisable C F"
  by (simp add: groupTracks_def)

lemma tracks_execNewChildCmd [tracks_intros]:
  "groupTracks sem C F \<Longrightarrow> tracks C F (execNewChildCmd sem cmd)"
  by (simp add: groupTracks_def)

lemma tracks_execChild [tracks_intros]:
  assumes "groupTracks sem C F"
  shows "tracks C F (execChild sem cmd)"
  unfolding execChild_def
  by (intro tracks_intros assms)

lemma tracks_createRandom: "groupTracks sem C F \<Longrightarrow> tracks C F createRandom"
  by (simp add: tracks_def createRandom_def groupTracks_def frameInv_def)

lemma tracks_logSplitterCall: "groupTracks sem C F \<Longrightarrow> tracks C F (logSplitterCall netsegment)"
  by (simp add: tracks_def logSplitterCall_def groupTracks_def logInv_def)

lemma tracks_addNetLine_guarded:
  assumes "groupTracks sem C F"
  shows "tracks C F (addNetLine_guarded startA endA layer width netlines)"
  unfolding addNetLine_guarded_def
  by (intro tracks_intros tracks_createRandom [OF assms] groupTracks_raisable [OF assms])

lemma tracks_createSubNetSegment:
  assumes "groupTracks sem C F"
  shows "tracks C F (createSubNetSegment sem netsegment subsegment)"
  unfolding createSubNetSegment_def Let_def
  by (intro tracks_intros assms tracks_createRandom [OF assms]
      tracks_addNetLine_guarded [OF assms] groupTracks_raisable [OF assms])

lemma tracks_splitUpNetSegment:
  assumes "groupTracks sem C F"
  shows "tracks C F (splitUpNetSegment sem splitter netsegment items)"
  unfolding splitUpNetSegment_def Let_def
  by (intro tracks_intros assms tracks_logSplitterCall [OF assms]
      tracks_createSubNetSegment [OF assms])

lemma tracks_removeNetSegmentItems:
  assumes "groupTracks sem C F"
  shows "tracks C F (removeNetSegmentItems sem splitter entry)"
  unfolding removeNetSegmentItems_def Let_def
  by (intro tracks_intros assms tracks_splitUpNetSegment [OF assms])

lemma tracks_removeStrokeText:
  assumes "groupTracks sem C F"
  shows "tracks C F (removeStrokeText sem devices text)"
  unfolding removeStrokeText_def
  by (intro tracks_intros assms)

lemma tracks_CmdRemoveBoardItems_body:
  assumes "groupTracks sem C F"
  shows "tracks C F (CmdRemoveBoardItems_body sem splitter this)"
  unfolding CmdRemoveBoardItems_body_def Let_def
  by (intro tracks_intros assms tracks_removeNetSegmentItems [OF assms]
      tracks_removeStrokeText [OF assms])

lemma tracks_getOrCreateNetSignal:
  assumes "groupTracks sem C F"
  shows "tracks C F (getOrCreateNetSignal sem name)"
  unfolding getOrCreateNetSignal_def
  by (intro tracks_intros assms groupTracks_raisable [OF assms])

lemma tracks_derefNetSignal:
  assumes "groupTracks sem C F"
  shows "tracks C F (derefNetSignal sem name)"
  unfolding derefNetSignal_def
  by (intro tracks_intros assms tracks_getOrCreateNetSignal [OF assms]
      groupTracks_raisable [OF assms])

lemma tracks_pasteDevice:
  assumes "groupTracks sem C F"
  shows "tracks C F (pasteDevice sem mData mPosOffset dev pasted)"
  unfolding pasteDevice_def pasteStrokeTexts_def
  by (intro tracks_intros assms tracks_createRandom [OF assms] groupTracks_raisable [OF assms])

lemma tracks_pasteNetSegment:
  assumes "groupTracks sem C F"
  shows "tracks C F (pasteNetSegment sem mPosOffset seg)"
  unfolding pasteNetSegment_def pasteTrace_def Let_def
  by (intro tracks_intros assms tracks_createRandom [OF assms]
      tracks_derefNetSignal [OF assms] tracks_addNetLine_guarded [OF assms])

lemma tracks_CmdPasteBoardItems_body:
  assumes "groupTracks sem C F"
  shows "tracks C F (CmdPasteBoardItems_body sem mData mPosOffset)"
  unfolding CmdPasteBoardItems_body_def pastePlane_def pastePolygon_def pasteStrokeText_def
    pasteHole_def
  by (intro tracks_intros assms tracks_createRandom [OF assms]
      tracks_derefNetSignal [OF assms] tracks_pasteDevice [OF assms]
      tracks_pasteNetSegment [OF assms])

section \<open>The rollback invariant\<close>

text \<open>
  The log holds one execution per child, in order.
\<close>

definition historyInv :: "'c Op list \<Rightarrow> ('c, 'r, 's, 'z) UndoCommandGroup_scheme \<Rightarrow> bool" where
  "historyInv h0 g = (history g = h0 @ map (\<lambda>child. Executed (fst child)) (mChilds g))"

text \<open>
  While the body of \<open>performExecute\<close> runs: undoing the children executed so far, last
  first, gives the model of the start.
\<close>

definition rollbackInv ::
  "('c, 'r, 's) CmdSem \<Rightarrow> 's \<Rightarrow> 'c Op list \<Rightarrow> ('c, 'r, 's, 'z) UndoCommandGroup_scheme \<Rightarrow> bool" where
  "rollbackInv sem s0 h0 g = (undoChilds sem (mChilds g) (model g) = s0 \<and> historyInv h0 g)"

text \<open>
  When the body is left by the exception \<open>e\<close>: the same holds of the model, and the log
  ends with the executions of the children, or with them and the one child whose
  execution threw \<open>e\<close>.
\<close>

definition faultInv ::
  "('c, 'r, 's) CmdSem \<Rightarrow> 's \<Rightarrow> 'c Op list \<Rightarrow> Exception
     \<Rightarrow> ('c, 'r, 's, 'z) UndoCommandGroup_scheme \<Rightarrow> bool" where
  "faultInv sem s0 h0 e g =
     (undoChilds sem (mChilds g) (model g) = s0 \<and>
      (history g = h0 @ map (\<lambda>child. Executed (fst child)) (mChilds g) \<or>
       (\<exists>c. history g = h0 @ map (\<lambda>child. Executed (fst child)) (mChilds g) @ [Failed c e])))"

lemma undoChilds_append:
  "undoChilds sem (xs @ ys) s = undoChilds sem xs (undoChilds sem ys s)"
  by (induction xs) simp_all

lemma groupTracks_historyInv: "groupTracks sem (historyInv h0) (\<lambda>e g. True)"
  by (auto simp: groupTracks_def tracks_def raisable_def frameInv_def logInv_def historyInv_def
      execNewChildCmd_def split: sum.splits)

lemma groupTracks_rollbackInv:
  assumes "reversible sem"
  shows "groupTracks sem (rollbackInv sem s0 h0) (faultInv sem s0 h0)"
proof -
  have step: "tracks (rollbackInv sem s0 h0) (faultInv sem s0 h0)
                (execNewChildCmd sem cmd :: (CmdResult, EditGroup) action)"
    for cmd
    unfolding tracks_def
  proof (intro allI impI)
    fix g :: EditGroup
    assume inv: "rollbackInv sem s0 h0 g"
    show "case execNewChildCmd sem cmd g of
            (Inl e, g') \<Rightarrow> faultInv sem s0 h0 e g'
          | (Inr x, g') \<Rightarrow> rollbackInv sem s0 h0 g'"
    proof (cases "cmd_execute sem cmd (model g)")
      case (Inl e)
      then show ?thesis
        using inv by (simp add: execNewChildCmd_def rollbackInv_def historyInv_def faultInv_def)
    next
      case (Inr p)
      obtain r s' where p: "p = (r, s')" by (cases p)
      have "cmd_undo sem cmd r s' = model g"
        using assms Inr p by (auto simp: reversible_def)
      then show ?thesis
        using inv Inr p
        by (simp add: execNewChildCmd_def rollbackInv_def historyInv_def undoChilds_append)
    qed
  qed
  moreover have "raisable (rollbackInv sem s0 h0) (faultInv sem s0 h0)"
    by (simp add: raisable_def rollbackInv_def historyInv_def faultInv_def)
  moreover have "frameInv (rollbackInv sem s0 h0)" "logInv (rollbackInv sem s0 h0)"
    by (simp_all add: frameInv_def logInv_def rollbackInv_def historyInv_def)
  ultimately show ?thesis by (simp add: groupTracks_def)
qed

text \<open>The frame, when the body is left by an exception.\<close>

lemma guardedExecute_rollback:
  assumes tr: "tracks (rollbackInv sem (model g) (history g))
                 (faultInv sem (model g) (history g)) body"
    and fresh: "mChilds g = []"
    and fails: "fst (body g) = Inl e"
  shows "fst (guardedExecute sem body g) = Inl e \<and>
         model (snd (guardedExecute sem body g)) = model g \<and>
         mChilds (snd (guardedExecute sem body g)) = mChilds (snd (body g)) \<and>
         history (snd (guardedExecute sem body g))
           = history (snd (body g))
               @ map Undone (rev (map fst (mChilds (snd (guardedExecute sem body g))))) \<and>
         (history (snd (body g))
            = history g @ map Executed (map fst (mChilds (snd (guardedExecute sem body g)))) \<or>
          (\<exists>c. history (snd (body g))
             = history g @ map Executed (map fst (mChilds (snd (guardedExecute sem body g))))
                 @ [Failed c e]))"
proof -
  obtain r g' where body: "body g = (r, g')" by (cases "body g")
  have r: "r = Inl e" using fails body by simp
  have "rollbackInv sem (model g) (history g) g"
    using fresh by (simp add: rollbackInv_def historyInv_def)
  then have inv: "faultInv sem (model g) (history g) e g'"
    using tr body r by (auto simp: tracks_def)
  have res: "guardedExecute sem body g = (Inl e, performUndo sem g')"
    using body r by (simp add: guardedExecute_def scopeGuard_exit_def)
  show ?thesis
    using inv unfolding res body
    by (simp add: performUndo_def faultInv_def rev_map comp_def)
qed

text \<open>The body is not left normally once the execution of a child has thrown.\<close>

lemma body_child_fault:
  assumes tr: "tracks (rollbackInv sem (model g) (history g))
                 (faultInv sem (model g) (history g)) body"
    and fresh: "mChilds g = []"
    and child: "Failed c e \<in> set (drop (length (history g)) (history (snd (body g))))"
  shows "fst (body g) = Inl e \<and>
         history (snd (body g))
           = history g @ map Executed (map fst (mChilds (snd (body g)))) @ [Failed c e]"
proof -
  obtain r g' where body: "body g = (r, g')" by (cases "body g")
  have start: "rollbackInv sem (model g) (history g) g"
    using fresh by (simp add: rollbackInv_def historyInv_def)
  show ?thesis
  proof (cases r)
    case (Inr u)
    then have "rollbackInv sem (model g) (history g) g'"
      using tr body start by (auto simp: tracks_def)
    then have "history g' = history g @ map (\<lambda>child. Executed (fst child)) (mChilds g')"
      by (simp add: rollbackInv_def historyInv_def)
    then have False using child body by auto
    then show ?thesis ..
  next
    case (Inl e')
    then have "faultInv sem (model g) (history g) e' g'"
      using tr body start by (auto simp: tracks_def)
    then consider
        "history g' = history g @ map (\<lambda>child. Executed (fst child)) (mChilds g')"
      | c' where "history g'
          = history g @ map (\<lambda>child. Executed (fst child)) (mChilds g') @ [Failed c' e']"
      by (auto simp: faultInv_def)
    then show ?thesis
    proof cases
      case 1
      then have False using child body by auto
      then show ?thesis ..
    next
      case 2
      then have "c' = c \<and> e' = e" using child body by auto
      then show ?thesis using 2 body Inl by (simp add: comp_def)
    qed
  qed
qed

lemma guardedExecute_child_fault:
  assumes tr: "tracks (rollbackInv sem (model g) (history g))
                 (faultInv sem (model g) (history g)) body"
    and fresh: "mChilds g = []"
    and child: "Failed c e \<in> set (drop (length (history g)) (history (snd (body g))))"
  shows "fst (guardedExecute sem body g) = Inl e \<and>
         model (snd (guardedExecute sem body g)) = model g \<and>
         history (snd (guardedExecute sem body g))
           = history g @ map Executed (map fst (mChilds (snd (guardedExecute sem body g))))
               @ [Failed c e]
               @ map Undone (rev (map fst (mChilds (snd (guardedExecute sem body g)))))"
proof -
  note b = body_child_fault [OF tr fresh child]
  note f = guardedExecute_rollback [OF tr fresh b [THEN conjunct1]]
  show ?thesis using b f by simp
qed

lemma guardedExecute_success:
  assumes tr: "tracks (historyInv (history g)) (\<lambda>e g. True) body"
    and ok: "guardedExecute sem body g = (Inr b, g')"
  shows "b = (getChildCount g' > 0) \<and> body g = (Inr (), g') \<and>
         (mChilds g = [] \<longrightarrow>
            history g' = history g @ map Executed (map fst (mChilds g')))"
proof -
  obtain r g1 where body: "body g = (r, g1)" by (cases "body g")
  have r: "r = Inr ()" using ok body by (cases r) (simp_all add: guardedExecute_def)
  have g1: "g1 = g'" and b: "b = (getChildCount g' > 0)"
    using ok body r by (auto simp: guardedExecute_def scopeGuard_exit_def)
  have "historyInv (history g) g1" if "mChilds g = []"
    using tr body r that by (auto simp: tracks_def historyInv_def)
  then show ?thesis using body r g1 b by (simp add: historyInv_def comp_def)
qed

text \<open>
  C1. A group that starts without children and whose child commands are reversible.
  When the execution of a child \<open>c\<close> throws \<open>e\<close> while the body of \<open>performExecute\<close>
  runs (the log of the body holds \<open>Failed c e\<close>), \<open>performExecute\<close> throws \<open>e\<close> to its
  caller, the model is the model of the start, and the log reads: the executions of the
  children before \<open>c\<close>, the failure of \<open>c\<close>, and the undos of those children in reverse
  order; so no child was executed after \<open>c\<close>. Any exception that leaves the body leaves
  \<open>performExecute\<close> too, with the model of the start and the children undone.
\<close>

theorem performExecute_rollback:
  assumes "reversible sem" and "mChilds g = []"
  shows
    "(Failed c e \<in> set (drop (length (history g))
        (history (snd (CmdRemoveBoardItems_body sem splitter this g)))) \<longrightarrow>
        fst (CmdRemoveBoardItems_performExecute sem splitter this g) = Inl e \<and>
        model (snd (CmdRemoveBoardItems_performExecute sem splitter this g)) = model g \<and>
        history (snd (CmdRemoveBoardItems_performExecute sem splitter this g))
          = history g
            @ map Executed
                (map fst (mChilds (snd (CmdRemoveBoardItems_performExecute sem splitter this g))))
            @ [Failed c e]
            @ map Undone
                (rev (map fst
                   (mChilds (snd (CmdRemoveBoardItems_performExecute sem splitter this g)))))) \<and>
     (fst (CmdRemoveBoardItems_body sem splitter this g) = Inl e \<longrightarrow>
        fst (CmdRemoveBoardItems_performExecute sem splitter this g) = Inl e \<and>
        model (snd (CmdRemoveBoardItems_performExecute sem splitter this g)) = model g \<and>
        history (snd (CmdRemoveBoardItems_performExecute sem splitter this g))
          = history (snd (CmdRemoveBoardItems_body sem splitter this g))
            @ map Undone
                (rev (map fst (mChilds (snd (CmdRemoveBoardItems_body sem splitter this g)))))) \<and>
     (Failed c e \<in> set (drop (length (history g))
        (history (snd (CmdPasteBoardItems_body sem mData mPosOffset g)))) \<longrightarrow>
        fst (CmdPasteBoardItems_performExecute sem mData mPosOffset g) = Inl e \<and>
        model (snd (CmdPasteBoardItems_performExecute sem mData mPosOffset g)) = model g \<and>
        history (snd (CmdPasteBoardItems_performExecute sem mData mPosOffset g))
          = history g
            @ map Executed
                (map fst (mChilds (snd (CmdPasteBoardItems_performExecute sem mData mPosOffset g))))
            @ [Failed c e]
            @ map Undone
                (rev (map fst
                   (mChilds (snd (CmdPasteBoardItems_performExecute sem mData mPosOffset g)))))) \<and>
     (fst (CmdPasteBoardItems_body sem mData mPosOffset g) = Inl e \<longrightarrow>
        fst (CmdPasteBoardItems_performExecute sem mData mPosOffset g) = Inl e \<and>
        model (snd (CmdPasteBoardItems_performExecute sem mData mPosOffset g)) = model g \<and>
        history (snd (CmdPasteBoardItems_performExecute sem mData mPosOffset g))
          = history (snd (CmdPasteBoardItems_body sem mData mPosOffset g))
            @ map Undone
                (rev (map fst (mChilds (snd (CmdPasteBoardItems_body sem mData mPosOffset g))))))"
proof -
  note remove = tracks_CmdRemoveBoardItems_body
    [OF groupTracks_rollbackInv [OF assms(1)], of "model g" "history g" splitter this]
  note paste = tracks_CmdPasteBoardItems_body
    [OF groupTracks_rollbackInv [OF assms(1)], of "model g" "history g" mData mPosOffset]
  show ?thesis
    unfolding CmdRemoveBoardItems_performExecute_def CmdPasteBoardItems_performExecute_def
    using guardedExecute_child_fault [OF remove assms(2), of c e]
      guardedExecute_rollback [OF remove assms(2), of e]
      guardedExecute_child_fault [OF paste assms(2), of c e]
      guardedExecute_rollback [OF paste assms(2), of e]
    by simp
qed

theorem performExecute_rollback_witness:
  "reversible (failingOn (CmdBoardHoleRemove demoHole) RuntimeError) \<and>
   reversible (failingOn (CmdBoardHoleAdd secondPastedHole) RuntimeError) \<and>
   mChilds demoGroup = [] \<and>
   history (snd (CmdRemoveBoardItems_body (failingOn (CmdBoardHoleRemove demoHole) RuntimeError)
     wholeSegment removeSegmentAndHole demoGroup))
     = [Executed (CmdBoardNetSegmentRemove demoNetSegment),
        Failed (CmdBoardHoleRemove demoHole) RuntimeError] \<and>
   fst (CmdRemoveBoardItems_performExecute (failingOn (CmdBoardHoleRemove demoHole) RuntimeError)
     wholeSegment removeSegmentAndHole demoGroup) = Inl RuntimeError \<and>
   model (snd (CmdRemoveBoardItems_performExecute
     (failingOn (CmdBoardHoleRemove demoHole) RuntimeError) wholeSegment removeSegmentAndHole
     demoGroup)) = demoProject \<and>
   history (snd (CmdRemoveBoardItems_performExecute
     (failingOn (CmdBoardHoleRemove demoHole) RuntimeError) wholeSegment removeSegmentAndHole
     demoGroup))
     = [Executed (CmdBoardNetSegmentRemove demoNetSegment),
        Failed (CmdBoardHoleRemove demoHole) RuntimeError,
        Undone (CmdBoardNetSegmentRemove demoNetSegment)] \<and>
   history (snd (CmdPasteBoardItems_body (failingOn (CmdBoardHoleAdd secondPastedHole) RuntimeError)
     pasteTwoHoles (1, 1) demoGroup))
     = [Executed (CmdBoardHoleAdd firstPastedHole),
        Failed (CmdBoardHoleAdd secondPastedHole) RuntimeError] \<and>
   fst (CmdPasteBoardItems_performExecute (failingOn (CmdBoardHoleAdd secondPastedHole) RuntimeError)
     pasteTwoHoles (1, 1) demoGroup) = Inl RuntimeError \<and>
   model (snd (CmdPasteBoardItems_performExecute
     (failingOn (CmdBoardHoleAdd secondPastedHole) RuntimeError) pasteTwoHoles (1, 1) demoGroup))
     = demoProject \<and>
   history (snd (CmdPasteBoardItems_performExecute
     (failingOn (CmdBoardHoleAdd secondPastedHole) RuntimeError) pasteTwoHoles (1, 1) demoGroup))
     = [Executed (CmdBoardHoleAdd firstPastedHole),
        Failed (CmdBoardHoleAdd secondPastedHole) RuntimeError,
        Undone (CmdBoardHoleAdd firstPastedHole)] \<and>
   fst (CmdPasteBoardItems_body stdSem pasteOneTrace (1, 1) demoGroup) = Inl LogicError \<and>
   fst (CmdPasteBoardItems_performExecute stdSem pasteOneTrace (1, 1) demoGroup)
     = Inl LogicError \<and>
   model (snd (CmdPasteBoardItems_performExecute stdSem pasteOneTrace (1, 1) demoGroup))
     = demoProject"
proof -
  let ?semR = "failingOn (CmdBoardHoleRemove demoHole) RuntimeError"
  let ?semP = "failingOn (CmdBoardHoleAdd secondPastedHole) RuntimeError"
  let ?R = "CmdRemoveBoardItems_performExecute ?semR wholeSegment removeSegmentAndHole demoGroup"
  let ?P = "CmdPasteBoardItems_performExecute ?semP pasteTwoHoles (1, 1) demoGroup"
  have fresh: "mChilds demoGroup = []" by (simp add: demoGroup_def)
  have start: "model demoGroup = demoProject" "history demoGroup = []"
    by (simp_all add: demoGroup_def)
  have h1: "history (snd (CmdRemoveBoardItems_body ?semR wholeSegment removeSegmentAndHole
              demoGroup))
              = [Executed (CmdBoardNetSegmentRemove demoNetSegment),
                 Failed (CmdBoardHoleRemove demoHole) RuntimeError]"
    by code_simp
  have c1: "map fst (mChilds (snd ?R)) = [CmdBoardNetSegmentRemove demoNetSegment]"
    by code_simp
  have h2: "history (snd (CmdPasteBoardItems_body ?semP pasteTwoHoles (1, 1) demoGroup))
              = [Executed (CmdBoardHoleAdd firstPastedHole),
                 Failed (CmdBoardHoleAdd secondPastedHole) RuntimeError]"
    by code_simp
  have c2: "map fst (mChilds (snd ?P)) = [CmdBoardHoleAdd firstPastedHole]"
    by code_simp
  have b3: "fst (CmdPasteBoardItems_body stdSem pasteOneTrace (1, 1) demoGroup) = Inl LogicError"
    by code_simp
  note t1 = performExecute_rollback [of ?semR demoGroup "CmdBoardHoleRemove demoHole"
    RuntimeError wholeSegment removeSegmentAndHole, OF reversible_failingOn fresh]
  note t2 = performExecute_rollback [of ?semP demoGroup "CmdBoardHoleAdd secondPastedHole"
    RuntimeError _ _ pasteTwoHoles "(1, 1)", OF reversible_failingOn fresh]
  note t3 = performExecute_rollback [of stdSem demoGroup _ LogicError _ _ pasteOneTrace "(1, 1)",
    OF reversible_stdSem fresh]
  have r: "fst ?R = Inl RuntimeError \<and> model (snd ?R) = demoProject \<and>
           history (snd ?R)
             = [Executed (CmdBoardNetSegmentRemove demoNetSegment),
                Failed (CmdBoardHoleRemove demoHole) RuntimeError,
                Undone (CmdBoardNetSegmentRemove demoNetSegment)]"
    using t1 [THEN conjunct1] h1 by (simp add: start c1)
  have p: "fst ?P = Inl RuntimeError \<and> model (snd ?P) = demoProject \<and>
           history (snd ?P)
             = [Executed (CmdBoardHoleAdd firstPastedHole),
                Failed (CmdBoardHoleAdd secondPastedHole) RuntimeError,
                Undone (CmdBoardHoleAdd firstPastedHole)]"
    using t2 [THEN conjunct2, THEN conjunct2, THEN conjunct1] h2 by (simp add: start c2)
  have q: "fst (CmdPasteBoardItems_performExecute stdSem pasteOneTrace (1, 1) demoGroup)
             = Inl LogicError \<and>
           model (snd (CmdPasteBoardItems_performExecute stdSem pasteOneTrace (1, 1) demoGroup))
             = demoProject"
    using t3 [THEN conjunct2, THEN conjunct2, THEN conjunct2] b3 by (simp add: start)
  show ?thesis
    using reversible_failingOn fresh h1 h2 b3 r p q by simp
qed


text \<open>
  C8. When \<open>performExecute\<close> completes without a fault, the value it returns is
  \<open>getChildCount() > 0\<close>; the guard was dismissed, so the group is as the body left it
  and nothing was undone; for a group that started without children the log holds one
  execution per child, so the value is true exactly when a child was executed.
\<close>

theorem performExecute_success_flag:
  "(CmdRemoveBoardItems_performExecute sem splitter this g = (Inr b, g') \<longrightarrow>
      b = (getChildCount g' > 0) \<and>
      CmdRemoveBoardItems_body sem splitter this g = (Inr (), g') \<and>
      (mChilds g = [] \<longrightarrow> history g' = history g @ map Executed (map fst (mChilds g')))) \<and>
   (CmdPasteBoardItems_performExecute sem mData mPosOffset g = (Inr b, g') \<longrightarrow>
      b = (getChildCount g' > 0) \<and>
      CmdPasteBoardItems_body sem mData mPosOffset g = (Inr (), g') \<and>
      (mChilds g = [] \<longrightarrow> history g' = history g @ map Executed (map fst (mChilds g'))))"
  unfolding CmdRemoveBoardItems_performExecute_def CmdPasteBoardItems_performExecute_def
  using guardedExecute_success [OF tracks_CmdRemoveBoardItems_body [OF groupTracks_historyInv]]
        guardedExecute_success [OF tracks_CmdPasteBoardItems_body [OF groupTracks_historyInv]]
  by blast

theorem performExecute_success_flag_witness:
  "fst (CmdRemoveBoardItems_performExecute stdSem wholeSegment removeOneHole demoGroup)
     = Inr True \<and>
   getChildCount (snd (CmdRemoveBoardItems_performExecute stdSem wholeSegment removeOneHole
     demoGroup)) = 2 \<and>
   fst (CmdRemoveBoardItems_body stdSem wholeSegment removeOneHole demoGroup) = Inr () \<and>
   history (snd (CmdRemoveBoardItems_performExecute stdSem wholeSegment removeOneHole demoGroup))
     = [Executed (CmdBoardHoleRemove demoHole), Executed CmdRemoveUnusedLibraryElements] \<and>
   fst (CmdPasteBoardItems_performExecute stdSem (BoardClipboardData_new 0 (0, 0)) (1, 1)
     demoGroup) = Inr False \<and>
   getChildCount (snd (CmdPasteBoardItems_performExecute stdSem (BoardClipboardData_new 0 (0, 0))
     (1, 1) demoGroup)) = 0"
proof -
  let ?P = "CmdRemoveBoardItems_performExecute stdSem wholeSegment removeOneHole demoGroup"
  let ?Q = "CmdPasteBoardItems_performExecute stdSem (BoardClipboardData_new 0 (0, 0)) (1, 1)
              demoGroup"
  have fresh: "mChilds demoGroup = []" "history demoGroup = []" by (simp_all add: demoGroup_def)
  have r1: "fst ?P = Inr True" by code_simp
  have c1: "map fst (mChilds (snd ?P))
              = [CmdBoardHoleRemove demoHole, CmdRemoveUnusedLibraryElements]"
    by code_simp
  have r2: "fst ?Q = Inr False" by code_simp
  have p1: "?P = (Inr True, snd ?P)" using r1 by (metis prod.collapse)
  have p2: "?Q = (Inr False, snd ?Q)" using r2 by (metis prod.collapse)
  have n1: "getChildCount (snd ?P) = length (map fst (mChilds (snd ?P)))"
    by (simp add: getChildCount_def)
  have f1: "b = (0 < getChildCount (snd ?P)) \<and>
        CmdRemoveBoardItems_body stdSem wholeSegment removeOneHole demoGroup = (Inr (), snd ?P) \<and>
        (mChilds demoGroup = [] \<longrightarrow>
           history (snd ?P) = history demoGroup @ map Executed (map fst (mChilds (snd ?P))))"
    if "b = True" for b
    using performExecute_success_flag [of stdSem wholeSegment removeOneHole demoGroup True
            "snd ?P"] p1 that
    by simp
  have f2: "False = (0 < getChildCount (snd ?Q))"
    using performExecute_success_flag [of stdSem _ _ demoGroup False "snd ?Q"
            "BoardClipboardData_new 0 (0, 0)" "(1, 1)"] p2
    by simp
  show ?thesis
    using f1 [of True] f2 r1 r2 fresh by (simp add: n1 c1)
qed

section \<open>Properties of the paste command\<close>

lemma std_execute_CmdNetClassAdd:
  "getNetClassByName prj name = None \<Longrightarrow>
     \<exists>nc s. std_execute (CmdNetClassAdd name) prj = Inr (NetClassResult nc, s) \<and>
            netclass_name nc = name"
  by (simp add: Let_def)

lemma stdSem_getOrCreateNetSignal_total:
  "\<exists>ns. fst (getOrCreateNetSignal stdSem name g) = Inr (Some ns)"
proof (cases "getNetSignalByName (model g) name")
  case (Some ns)
  then show ?thesis by (simp add: getOrCreateNetSignal_def bindA_def getsA_def returnA_def)
next
  case None
  show ?thesis
  proof (cases "getNetClassByName (model g) ''default''")
    case (Some nc)
    then show ?thesis using None
      by (simp add: getOrCreateNetSignal_def bindA_def getsA_def returnA_def
          execNewChildCmd_def stdSem_def Let_def getNetSignal_def)
  next
    case noClass: None
    then show ?thesis using None
      by (simp add: getOrCreateNetSignal_def bindA_def getsA_def returnA_def
          execNewChildCmd_def stdSem_def Let_def getNetSignal_def getNetClass_def)
  qed
qed

text \<open>
  C7. \<open>getOrCreateNetSignal\<close>, for every requested name: a net signal of that name in
  the circuit is returned and nothing changes; otherwise, when a net class "default"
  exists, the only child is \<open>CmdNetSignalAdd\<close> with that class; when none exists,
  \<open>CmdNetClassAdd "default"\<close> is executed first and \<open>CmdNetSignalAdd\<close> gets the class it
  created. The function has no throw of its own: whenever the child commands execute,
  it returns the net signal, and with the reference semantics of the child commands it
  returns one for every state.
\<close>

theorem getOrCreateNetSignal_spec:
  "(getNetSignalByName (model g) name = Some ns \<longrightarrow>
      getOrCreateNetSignal sem name g = (Inr (Some ns), g)) \<and>
   (getNetSignalByName (model g) name = None \<longrightarrow>
    getNetClassByName (model g) ''default'' = Some nc \<longrightarrow>
    cmd_execute sem (CmdNetSignalAdd nc) (model g) = Inr (r2, s2) \<longrightarrow>
      getOrCreateNetSignal sem name g =
        (Inr (getNetSignal r2),
         g\<lparr>model := s2, mChilds := mChilds g @ [(CmdNetSignalAdd nc, r2)],
           history := history g @ [Executed (CmdNetSignalAdd nc)]\<rparr>)) \<and>
   (getNetSignalByName (model g) name = None \<longrightarrow>
    getNetClassByName (model g) ''default'' = None \<longrightarrow>
    cmd_execute sem (CmdNetClassAdd ''default'') (model g) = Inr (r1, s1) \<longrightarrow>
    getNetClass r1 = Some nc \<longrightarrow>
    cmd_execute sem (CmdNetSignalAdd nc) s1 = Inr (r2, s2) \<longrightarrow>
      getOrCreateNetSignal sem name g =
        (Inr (getNetSignal r2),
         g\<lparr>model := s2,
           mChilds := mChilds g @ [(CmdNetClassAdd ''default'', r1), (CmdNetSignalAdd nc, r2)],
           history := history g @ [Executed (CmdNetClassAdd ''default''),
                                   Executed (CmdNetSignalAdd nc)]\<rparr>)) \<and>
   (\<exists>created. fst (getOrCreateNetSignal stdSem name g) = Inr (Some created))"
  using stdSem_getOrCreateNetSignal_total [of name g]
  by (simp add: getOrCreateNetSignal_def bindA_def getsA_def returnA_def execNewChildCmd_def)


definition bareGroup :: EditGroup where
  "bareGroup = demoGroup\<lparr>model := demoProject\<lparr>prj_netClasses := [], prj_netSignals := []\<rparr>\<rparr>"

theorem getOrCreateNetSignal_spec_witness:
  "getOrCreateNetSignal stdSem ''GND'' demoGroup = (Inr (Some demoNetSignal), demoGroup) \<and>
   map fst (mChilds (snd (getOrCreateNetSignal stdSem ''VCC'' demoGroup)))
     = [CmdNetSignalAdd demoNetClass] \<and>
   map fst (mChilds (snd (getOrCreateNetSignal stdSem ''VCC'' bareGroup)))
     = [CmdNetClassAdd ''default'',
        CmdNetSignalAdd \<lparr>netclass_uuid = 1, netclass_name = ''default''\<rparr>] \<and>
   (\<exists>created. fst (getOrCreateNetSignal stdSem ''VCC'' bareGroup) = Inr (Some created))"
proof -
  let ?nc = "\<lparr>netclass_uuid = 1, netclass_name = ''default''\<rparr>"
  have a: "getNetSignalByName (model demoGroup) ''GND'' = Some demoNetSignal" by code_simp
  have b: "getNetSignalByName (model demoGroup) ''VCC'' = None"
          "getNetClassByName (model demoGroup) ''default'' = Some demoNetClass"
    by code_simp+
  obtain r2 s2 where b2: "cmd_execute stdSem (CmdNetSignalAdd demoNetClass) (model demoGroup)
                            = Inr (r2, s2)"
    by (simp add: stdSem_def Let_def)
  have c: "getNetSignalByName (model bareGroup) ''VCC'' = None"
          "getNetClassByName (model bareGroup) ''default'' = None"
    by code_simp+
  have c1: "cmd_execute stdSem (CmdNetClassAdd ''default'') (model bareGroup)
              = Inr (NetClassResult ?nc, (model bareGroup)\<lparr>prj_netClasses := [?nc]\<rparr>)"
    by code_simp
  obtain r3 s3 where c2: "cmd_execute stdSem (CmdNetSignalAdd ?nc)
                            ((model bareGroup)\<lparr>prj_netClasses := [?nc]\<rparr>) = Inr (r3, s3)"
    by (simp add: stdSem_def Let_def)
  have nc: "getNetClass (NetClassResult ?nc) = Some ?nc" by (simp add: getNetClass_def)
  note t1 = getOrCreateNetSignal_spec [of demoGroup "''GND''" demoNetSignal stdSem]
  note t2 = getOrCreateNetSignal_spec [of demoGroup "''VCC''" _ stdSem demoNetClass r2 s2]
  note t3 = getOrCreateNetSignal_spec [of bareGroup "''VCC''" _ stdSem ?nc r3 s3
              "NetClassResult ?nc" "(model bareGroup)\<lparr>prj_netClasses := [?nc]\<rparr>"]
  have m0: "mChilds demoGroup = []" "mChilds bareGroup = []"
    by (simp_all add: demoGroup_def bareGroup_def)
  have p1: "getOrCreateNetSignal stdSem ''GND'' demoGroup = (Inr (Some demoNetSignal), demoGroup)"
    using t1 a by simp
  have p2: "map fst (mChilds (snd (getOrCreateNetSignal stdSem ''VCC'' demoGroup)))
              = [CmdNetSignalAdd demoNetClass]"
    using t2 b b2 by (simp add: m0)
  have p3: "map fst (mChilds (snd (getOrCreateNetSignal stdSem ''VCC'' bareGroup)))
              = [CmdNetClassAdd ''default'', CmdNetSignalAdd ?nc]"
    using t3 c c1 c2 nc by (simp add: m0)
  have p4: "\<exists>created. fst (getOrCreateNetSignal stdSem ''VCC'' bareGroup) = Inr (Some created)"
    using t3 by blast
  show ?thesis
    using p1 p2 p3 p4 by blast
qed


text \<open>An action that ends with a fault in whatever state it is started.\<close>

definition alwaysFails :: "('a, 'g) action \<Rightarrow> bool" where
  "alwaysFails m = (\<forall>g. \<exists>e. fst (m g) = Inl e)"

lemma alwaysFails_bindA_left: "alwaysFails m \<Longrightarrow> alwaysFails (bindA m f)"
  unfolding alwaysFails_def bindA_def
proof
  fix g
  assume a: "\<forall>g. \<exists>e. fst (m g) = Inl e"
  obtain e where "fst (m g) = Inl e" using a by blast
  then show "\<exists>e. fst (case m g of (Inl e, g') \<Rightarrow> (Inl e, g') | (Inr x, g') \<Rightarrow> f x g') = Inl e"
    by (cases "m g") auto
qed

lemma alwaysFails_bindA_right:
  assumes "\<And>x. alwaysFails (f x)"
  shows "alwaysFails (bindA m f)"
  unfolding alwaysFails_def bindA_def
proof
  fix g
  obtain r g' where mg: "m g = (r, g')" by (cases "m g")
  show "\<exists>e. fst (case m g of (Inl e, g') \<Rightarrow> (Inl e, g') | (Inr x, g') \<Rightarrow> f x g') = Inl e"
  proof (cases r)
    case (Inl e)
    then show ?thesis using mg by simp
  next
    case (Inr x)
    then show ?thesis using mg assms [of x] by (simp add: alwaysFails_def)
  qed
qed

lemma alwaysFails_case_prod:
  assumes "\<And>a b. alwaysFails (f a b)"
  shows "alwaysFails (case p of (a, b) \<Rightarrow> f a b)"
  using assms by (cases p) simp

lemma alwaysFails_foldA:
  assumes "x \<in> set xs" and "\<And>acc. alwaysFails (f x acc)"
  shows "alwaysFails (foldA f xs acc)"
  using assms(1)
proof (induction xs arbitrary: acc)
  case Nil
  then show ?case by simp
next
  case (Cons y ys)
  show ?case
  proof (cases "y = x")
    case True
    then show ?thesis using assms(2) by (simp add: alwaysFails_bindA_left)
  next
    case False
    then have "x \<in> set ys" using Cons.prems by simp
    then have "\<And>acc'. alwaysFails (foldA f ys acc')" using Cons.IH by blast
    then show ?thesis by (simp add: alwaysFails_bindA_right)
  qed
qed

lemma alwaysFails_forA:
  assumes "x \<in> set xs" and "alwaysFails (f x)"
  shows "alwaysFails (forA xs f)"
  unfolding forA_def using assms by (intro alwaysFails_foldA [of x]) simp_all

lemma pasteTrace_fault: "pasteTrace trace netlines g = (Inl LogicError, g)"
  by (simp add: pasteTrace_def addNetLine_guarded_def bindA_def getsA_def throwA_def)

lemma alwaysFails_pasteTraces:
  assumes "traces \<noteq> []"
  shows "alwaysFails (foldA pasteTrace traces [])"
proof -
  obtain t ts where "traces = t # ts" using assms by (cases traces) auto
  then show ?thesis
    by (simp add: alwaysFails_def bindA_def pasteTrace_fault)
qed

lemma alwaysFails_pasteNetSegment:
  assumes "cd_traces seg \<noteq> []"
  shows "alwaysFails (pasteNetSegment sem mPosOffset seg)"
  unfolding pasteNetSegment_def Let_def
  apply (rule alwaysFails_bindA_right)
  apply (rule alwaysFails_bindA_right)
  apply (rule alwaysFails_bindA_right)
  apply (rule alwaysFails_bindA_right)
  apply (rule alwaysFails_case_prod)
  apply (rule alwaysFails_bindA_right)
  apply (rule alwaysFails_case_prod)
  apply (rule alwaysFails_bindA_left)
  apply (rule alwaysFails_pasteTraces [OF assms])
  done

lemma alwaysFails_CmdPasteBoardItems_body:
  assumes "seg \<in> set (data_netSegments mData)" and "cd_traces seg \<noteq> []"
  shows "alwaysFails (CmdPasteBoardItems_body sem mData mPosOffset)"
  unfolding CmdPasteBoardItems_body_def
  apply (rule alwaysFails_bindA_right)
  apply (rule alwaysFails_bindA_left)
  apply (rule alwaysFails_forA [of seg])
   apply (rule assms(1))
  apply (rule alwaysFails_pasteNetSegment [OF assms(2)])
  done

lemma guardedExecute_fault: "fst (body g) = Inl e \<Longrightarrow> fst (guardedExecute sem body g) = Inl e"
  by (cases "body g") (simp add: guardedExecute_def)

text \<open>
  C6. The guard in front of \<open>addNetLine\<close> throws \<open>LogicError\<close>, with the group untouched,
  as soon as the start anchor, the end anchor or the layer is a null pointer, and a net
  line is appended only when all three are there. During a paste the anchors of a trace
  are never resolved (the code that would do so is commented out), so the round for any
  trace ends with \<open>LogicError\<close>, and \<open>performExecute\<close> ends with a fault for every payload
  that holds a net segment with a trace.
\<close>

theorem paste_trace_logic_fault:
  "((startA = None \<or> endA = None \<or> layer = None) \<longrightarrow>
      addNetLine_guarded startA endA layer width netlines g = (Inl LogicError, g)) \<and>
   (fst (addNetLine_guarded startA endA layer width netlines g) = Inr netlines' \<longrightarrow>
      startA \<noteq> None \<and> endA \<noteq> None \<and> layer \<noteq> None \<and>
      butlast netlines' = netlines \<and>
      trace_startPoint (last netlines') = the startA \<and>
      trace_endPoint (last netlines') = the endA) \<and>
   pasteTrace trace netlines g = (Inl LogicError, g) \<and>
   (seg \<in> set (data_netSegments mData) \<longrightarrow> cd_traces seg \<noteq> [] \<longrightarrow>
      (\<exists>e. fst (CmdPasteBoardItems_performExecute sem mData mPosOffset g) = Inl e))"
proof -
  have guard: "(startA = None \<or> endA = None \<or> layer = None) \<longrightarrow>
      addNetLine_guarded startA endA layer width netlines g = (Inl LogicError, g)"
    by (simp add: addNetLine_guarded_def throwA_def)
  have only: "fst (addNetLine_guarded startA endA layer width netlines g) = Inr netlines' \<longrightarrow>
      startA \<noteq> None \<and> endA \<noteq> None \<and> layer \<noteq> None \<and>
      butlast netlines' = netlines \<and>
      trace_startPoint (last netlines') = the startA \<and>
      trace_endPoint (last netlines') = the endA"
    by (auto simp: addNetLine_guarded_def throwA_def bindA_def createRandom_def returnA_def
        split: if_splits)
  have whole: "\<exists>e. fst (CmdPasteBoardItems_performExecute sem mData mPosOffset g) = Inl e"
    if "seg \<in> set (data_netSegments mData)" and "cd_traces seg \<noteq> []"
  proof -
    have "alwaysFails (CmdPasteBoardItems_body sem mData mPosOffset)"
      using that by (rule alwaysFails_CmdPasteBoardItems_body)
    then obtain e where "fst (CmdPasteBoardItems_body sem mData mPosOffset g) = Inl e"
      by (auto simp: alwaysFails_def)
    then show ?thesis
      unfolding CmdPasteBoardItems_performExecute_def by (blast intro: guardedExecute_fault)
  qed
  show ?thesis using guard only pasteTrace_fault whole by blast
qed

theorem paste_trace_logic_fault_witness:
  "addNetLine_guarded None (Some (TA_netPoint 12)) (Some ''top_cu'') 200000 [] demoGroup
     = (Inl LogicError, demoGroup) \<and>
   pasteTrace demoTrace [] demoGroup = (Inl LogicError, demoGroup) \<and>
   cd_traces (hd (data_netSegments pasteOneTrace)) = [demoTrace] \<and>
   fst (CmdPasteBoardItems_performExecute stdSem pasteOneTrace (1, 1) demoGroup)
     = Inl LogicError"
proof -
  let ?seg = "hd (data_netSegments pasteOneTrace)"
  have s: "?seg \<in> set (data_netSegments pasteOneTrace)" "cd_traces ?seg \<noteq> []"
          "cd_traces ?seg = [demoTrace]"
    by (simp_all add: pasteOneTrace_def)
  have r: "fst (CmdPasteBoardItems_performExecute stdSem pasteOneTrace (1, 1) demoGroup)
             = Inl LogicError"
    by code_simp
  note t = paste_trace_logic_fault [of None "Some (TA_netPoint 12)" "Some ''top_cu''" 200000 "[]"
             demoGroup _ demoTrace ?seg pasteOneTrace stdSem "(1, 1)"]
  show ?thesis using t s r by simp
qed

section \<open>Properties of the remove command\<close>

text \<open>
  The net lines the command removes: those given to it and those attached to a pad of a
  device it removes. The vias and net lines of one net segment among the items to
  remove, and the net segments that have any.
\<close>

definition netLinesToRemove :: "CmdRemoveBoardItems \<Rightarrow> BI_NetLine set" where
  "netLinesToRemove this =
     set (mNetLines this) \<union>
     (\<Union>device \<in> set (mDeviceInstances this).
        \<Union>pad \<in> set (bidev_pads device). set (pad_netLines pad))"

definition selectedVias :: "CmdRemoveBoardItems \<Rightarrow> BI_NetSegment \<Rightarrow> BI_Via set" where
  "selectedVias this seg = {via \<in> set (mVias this). bivia_netSegment via = seg}"

definition selectedNetLines :: "CmdRemoveBoardItems \<Rightarrow> BI_NetSegment \<Rightarrow> BI_NetLine set" where
  "selectedNetLines this seg =
     {netline \<in> netLinesToRemove this. netline_netSegment netline = seg}"

definition allItemsSelected :: "CmdRemoveBoardItems \<Rightarrow> BI_NetSegment \<Rightarrow> bool" where
  "allItemsSelected this seg =
     (selectedVias this seg = set (getVias seg) \<and>
      selectedNetLines this seg = set (getNetLines seg))"

definition affectedSegments :: "CmdRemoveBoardItems \<Rightarrow> BI_NetSegment set" where
  "affectedSegments this =
     bivia_netSegment ` set (mVias this) \<union> netline_netSegment ` netLinesToRemove this"

definition itemsAt :: "NetSegmentItemList \<Rightarrow> BI_NetSegment \<Rightarrow> NetSegmentItems" where
  "itemsAt m key = (case map_of m key of None \<Rightarrow> emptyItems | Some v \<Rightarrow> v)"

lemma set_fold_insert: "set (fold List.insert xs ys) = set xs \<union> set ys"
  by (induction xs arbitrary: ys) auto

lemma set_fold_pads:
  "set (fold (\<lambda>pad nls'. fold List.insert (pad_netLines pad) nls') pads nls)
     = set nls \<union> (\<Union>pad \<in> set pads. set (pad_netLines pad))"
  by (induction pads arbitrary: nls) (auto simp: set_fold_insert)

lemma set_addNetLinesOfDevices:
  "set (addNetLinesOfDevices devices netlines)
     = set netlines \<union>
       (\<Union>device \<in> set devices. \<Union>pad \<in> set (bidev_pads device). set (pad_netLines pad))"
  unfolding addNetLinesOfDevices_def
  by (induction devices arbitrary: netlines) (auto simp: set_fold_pads)

lemma map_fst_modify:
  "map fst (map (\<lambda>entry. if fst entry = key then (key, f (snd entry)) else entry) m)
     = map fst m"
  by (induction m) auto

lemma map_fst_modifyItems:
  "map fst (modifyItems key f m)
     = (if key \<in> fst ` set m then map fst m else map fst m @ [key])"
  using map_fst_modify [of key f m] by (simp add: modifyItems_def del: map_map)

lemma modifyItems_keys: "fst ` set (modifyItems key f m) = insert key (fst ` set m)"
proof -
  have "fst ` set (modifyItems key f m) = set (map fst (modifyItems key f m))" by simp
  also have "\<dots> = insert key (fst ` set m)"
    unfolding map_fst_modifyItems by auto
  finally show ?thesis .
qed

lemma modifyItems_distinct:
  "distinct (map fst m) \<Longrightarrow> distinct (map fst (modifyItems key f m))"
  unfolding map_fst_modifyItems by auto

lemma map_of_modify:
  "map_of (map (\<lambda>entry. if fst entry = key then (key, f (snd entry)) else entry) m) k
     = (if k = key then map_option f (map_of m key) else map_of m k)"
  by (induction m) auto

lemma modifyItems_itemsAt:
  "itemsAt (modifyItems key f m) k = (if k = key then f (itemsAt m key) else itemsAt m k)"
proof (cases "key \<in> fst ` set m")
  case True
  then obtain v where "map_of m key = Some v"
    by (metis domD dom_map_of_conv_image_fst)
  then show ?thesis using True
    by (simp add: itemsAt_def modifyItems_def map_of_modify)
next
  case False
  then have "map_of m key = None" by (simp add: map_of_eq_None_iff)
  then show ?thesis using False
    by (auto simp: itemsAt_def modifyItems_def map_add_def split: option.splits)
qed

lemma fold_insertVia:
  "(distinct (map fst m) \<longrightarrow> distinct (map fst (fold insertVia vias m))) \<and>
   fst ` set (fold insertVia vias m) = fst ` set m \<union> bivia_netSegment ` set vias \<and>
   set (items_vias (itemsAt (fold insertVia vias m) seg))
     = set (items_vias (itemsAt m seg)) \<union> {v \<in> set vias. bivia_netSegment v = seg} \<and>
   items_netlines (itemsAt (fold insertVia vias m) seg) = items_netlines (itemsAt m seg)"
proof (induction vias arbitrary: m)
  case Nil
  then show ?case by simp
next
  case (Cons via vias)
  show ?case
    using Cons.IH [of "insertVia via m"]
    by (auto simp: insertVia_def modifyItems_keys modifyItems_distinct modifyItems_itemsAt)
qed

lemma fold_insertNetLine:
  "(distinct (map fst m) \<longrightarrow> distinct (map fst (fold insertNetLine netlines m))) \<and>
   fst ` set (fold insertNetLine netlines m)
     = fst ` set m \<union> netline_netSegment ` set netlines \<and>
   set (items_netlines (itemsAt (fold insertNetLine netlines m) seg))
     = set (items_netlines (itemsAt m seg)) \<union> {n \<in> set netlines. netline_netSegment n = seg} \<and>
   items_vias (itemsAt (fold insertNetLine netlines m) seg) = items_vias (itemsAt m seg)"
proof (induction netlines arbitrary: m)
  case Nil
  then show ?case by simp
next
  case (Cons netline netlines)
  show ?case
    using Cons.IH [of "insertNetLine netline m"]
    by (auto simp: insertNetLine_def modifyItems_keys modifyItems_distinct modifyItems_itemsAt)
qed

lemma itemsAt_Nil: "itemsAt [] seg = emptyItems"
  by (simp add: itemsAt_def)

lemma netSegmentItemsToRemove_distinct: "distinct (map fst (netSegmentItemsToRemove this))"
  using fold_insertVia [of "[]" "mVias this"] fold_insertNetLine
  by (simp add: netSegmentItemsToRemove_def Let_def determineItemsToRemove_def)

lemma netSegmentItemsToRemove_keys:
  "fst ` set (netSegmentItemsToRemove this) = affectedSegments this"
  using fold_insertVia [of "[]" "mVias this"]
        fold_insertNetLine [of "fold insertVia (mVias this) []"]
  by (simp add: netSegmentItemsToRemove_def Let_def determineItemsToRemove_def affectedSegments_def
      netLinesToRemove_def set_addNetLinesOfDevices Un_commute)

lemma netSegmentItemsToRemove_items:
  assumes "entry \<in> set (netSegmentItemsToRemove this)"
  shows "set (items_vias (snd entry)) = selectedVias this (fst entry) \<and>
         set (items_netlines (snd entry)) = selectedNetLines this (fst entry)"
proof -
  let ?m = "netSegmentItemsToRemove this"
  let ?nls = "addNetLinesOfDevices (mDeviceInstances this) (mNetLines this)"
  have "map_of ?m (fst entry) = Some (snd entry)"
    using assms netSegmentItemsToRemove_distinct [of this] by simp
  then have at: "itemsAt ?m (fst entry) = snd entry" by (simp add: itemsAt_def)
  have v: "set (items_vias (itemsAt ?m (fst entry))) = selectedVias this (fst entry)"
    using fold_insertVia [of "[]" "mVias this" "fst entry"]
          fold_insertNetLine [of "fold insertVia (mVias this) []" ?nls "fst entry"]
    by (simp add: netSegmentItemsToRemove_def Let_def determineItemsToRemove_def itemsAt_Nil
        emptyItems_def selectedVias_def)
  have n: "set (items_netlines (itemsAt ?m (fst entry))) = selectedNetLines this (fst entry)"
    using fold_insertVia [of "[]" "mVias this" "fst entry"]
          fold_insertNetLine [of "fold insertVia (mVias this) []" ?nls "fst entry"]
    by (simp add: netSegmentItemsToRemove_def Let_def determineItemsToRemove_def itemsAt_Nil
        emptyItems_def selectedNetLines_def netLinesToRemove_def set_addNetLinesOfDevices)
  show ?thesis using v n at by simp
qed


text \<open>
  The splitter log grows only by net segments that have an item to remove and are not
  removed as a whole.
\<close>

definition splitOnlyPartial ::
  "CmdRemoveBoardItems \<Rightarrow> BI_NetSegment list \<Rightarrow> EditGroup \<Rightarrow> bool" where
  "splitOnlyPartial this calls0 g =
     (\<forall>seg \<in> set (splitterCalls g) - set calls0.
        seg \<in> affectedSegments this \<and> \<not> allItemsSelected this seg)"

lemma groupInv_splitOnlyPartial: "groupInv sem (splitOnlyPartial this calls0)"
  by (auto simp: groupInv_def frameInv_def preserves_def splitOnlyPartial_def
      execNewChildCmd_def split: sum.splits)

lemma preserves_splitOnlyPartial_log:
  assumes "entry \<in> set (netSegmentItemsToRemove this)"
    and "\<not> (set (items_vias (snd entry)) = set (getVias (fst entry)) \<and>
            set (items_netlines (snd entry)) = set (getNetLines (fst entry)))"
  shows "preserves (splitOnlyPartial this calls0) (logSplitterCall (fst entry))"
proof -
  have "fst entry \<in> affectedSegments this"
    using assms(1) netSegmentItemsToRemove_keys [of this] by blast
  moreover have "\<not> allItemsSelected this (fst entry)"
    using assms(2) netSegmentItemsToRemove_items [OF assms(1)]
    by (simp add: allItemsSelected_def)
  ultimately show ?thesis
    by (auto simp: preserves_def splitOnlyPartial_def logSplitterCall_def)
qed

lemma guardedExecute_splitterCalls:
  "splitterCalls (snd (guardedExecute sem body g)) = splitterCalls (snd (body g))"
  by (cases "body g")
     (auto simp: guardedExecute_def scopeGuard_exit_def performUndo_def split: sum.splits)

lemma removeNetSegmentItems_whole:
  assumes "entry \<in> set (netSegmentItemsToRemove this)"
    and "allItemsSelected this (fst entry)"
  shows "removeNetSegmentItems sem splitter entry
           = execChild sem (CmdBoardNetSegmentRemove (fst entry))"
  using assms(2) netSegmentItemsToRemove_items [OF assms(1)]
  by (simp add: removeNetSegmentItems_def allItemsSelected_def execChild_def)

lemma removeNetSegmentItems_partial:
  assumes "entry \<in> set (netSegmentItemsToRemove this)"
    and "\<not> allItemsSelected this (fst entry)"
  shows "removeNetSegmentItems sem splitter entry
           = splitUpNetSegment sem splitter (fst entry) (snd entry)"
  using assms(2) netSegmentItemsToRemove_items [OF assms(1)]
  by (auto simp: removeNetSegmentItems_def allItemsSelected_def)

text \<open>
  The children that concern net segments: the removal of a segment, the creation of a
  segment and the addition of elements to one.
\<close>

definition isSegmentAdd :: "Cmd \<Rightarrow> bool" where
  "isSegmentAdd cmd =
     (case cmd of
        CmdBoardNetSegmentAdd netSignal created \<Rightarrow> True
      | CmdBoardNetSegmentAddElements seg vias netpoints netlines \<Rightarrow> True
      | _ \<Rightarrow> False)"

definition isSegmentCmd :: "Cmd \<Rightarrow> bool" where
  "isSegmentCmd cmd =
     (case cmd of CmdBoardNetSegmentRemove seg \<Rightarrow> True | _ \<Rightarrow> isSegmentAdd cmd)"

definition segmentCmds :: "Cmd list \<Rightarrow> Cmd list" where
  "segmentCmds cmds = filter isSegmentCmd cmds"

text \<open>
  The children of the round of one net segment: the removal of the segment comes first;
  it is all there is when every via and net line of the segment is to be removed, and
  otherwise the commands that build the remaining sub-segments follow.
\<close>

definition roundOf :: "CmdRemoveBoardItems \<Rightarrow> BI_NetSegment \<Rightarrow> Cmd list \<Rightarrow> bool" where
  "roundOf this seg cmds =
     (case cmds of
        [] \<Rightarrow> False
      | cmd # rest \<Rightarrow>
          cmd = CmdBoardNetSegmentRemove seg \<and>
          (if allItemsSelected this seg then rest = [] else list_all isSegmentAdd rest))"

text \<open>After the rounds of the net segments \<open>segs\<close>, from children \<open>X\<close> and splitter log \<open>Y\<close>.\<close>

definition segmentRounds ::
  "CmdRemoveBoardItems \<Rightarrow> Cmd list \<Rightarrow> BI_NetSegment list \<Rightarrow> BI_NetSegment list \<Rightarrow> EditGroup
     \<Rightarrow> bool" where
  "segmentRounds this X Y segs g =
     ((\<exists>rounds. segmentCmds (map fst (mChilds g)) = X @ concat rounds \<and>
         list_all2 (roundOf this) segs rounds) \<and>
      splitterCalls g = Y @ filter (\<lambda>seg. \<not> allItemsSelected this seg) segs)"

text \<open>Within the round of a segment that is split up, once the segment is removed.\<close>

definition segmentAdds :: "Cmd list \<Rightarrow> BI_NetSegment list \<Rightarrow> EditGroup \<Rightarrow> bool" where
  "segmentAdds X Y g =
     ((\<exists>adds. segmentCmds (map fst (mChilds g)) = X @ adds \<and> list_all isSegmentAdd adds) \<and>
      splitterCalls g = Y)"

text \<open>After the loop over the net segments.\<close>

definition segmentState :: "Cmd list \<Rightarrow> BI_NetSegment list \<Rightarrow> EditGroup \<Rightarrow> bool" where
  "segmentState X Y g = (segmentCmds (map fst (mChilds g)) = X \<and> splitterCalls g = Y)"

lemma isSegmentAdd_isSegmentCmd: "isSegmentAdd cmd \<Longrightarrow> isSegmentCmd cmd"
  by (cases cmd) (simp_all add: isSegmentCmd_def)

lemma isSegmentCmd_Remove: "isSegmentCmd (CmdBoardNetSegmentRemove seg)"
  by (simp add: isSegmentCmd_def)

lemma bindA_Inr:
  assumes "bindA m f g = (Inr y, g')"
  obtains x g1 where "m g = (Inr x, g1)" and "f x g1 = (Inr y, g')"
  using assms by (auto simp: bindA_def split: prod.splits sum.splits)

lemma forA_Nil: "forA [] f = returnA ()"
  by (simp add: forA_def)

lemma forA_Cons: "forA (x # xs) f = bindA (f x) (\<lambda>u. forA xs f)"
  by (simp add: forA_def)

lemma forA_progress:
  assumes "\<And>x seen g g'. x \<in> set xs \<Longrightarrow> I seen g \<Longrightarrow> f x g = (Inr (), g') \<Longrightarrow> I (seen @ [x]) g'"
    and "I seen g" and "forA xs f g = (Inr (), g')"
  shows "I (seen @ xs) g'"
  using assms
proof (induction xs arbitrary: seen g)
  case Nil
  then show ?case by (simp add: forA_Nil returnA_def)
next
  case (Cons x xs)
  from Cons.prems(3) obtain u g1 where first: "f x g = (Inr u, g1)"
    and others: "forA xs f g1 = (Inr (), g')"
    unfolding forA_Cons by (rule bindA_Inr)
  have "I (seen @ [x]) g1" using Cons.prems(1) [of x seen g g1] Cons.prems(2) first by simp
  then have "I ((seen @ [x]) @ xs) g'"
    using Cons.prems(1) others by (intro Cons.IH [of "seen @ [x]" g1]) simp_all
  then show ?case by simp
qed

lemma execNewChildCmd_Inr:
  assumes "execNewChildCmd sem cmd g = (Inr r, g')"
  shows "mChilds g' = mChilds g @ [(cmd, r)] \<and> splitterCalls g' = splitterCalls g"
  using assms by (auto simp: execNewChildCmd_def split: sum.splits)

lemma preservesD: "preserves I m \<Longrightarrow> I g \<Longrightarrow> I (snd (m g))"
  by (simp add: preserves_def)

lemma frameInv_segmentAdds: "frameInv (segmentAdds X Y)"
  by (simp add: frameInv_def segmentAdds_def)

lemma preserves_segmentAdds_exec:
  assumes "isSegmentAdd cmd"
  shows "preserves (segmentAdds X Y) (execNewChildCmd sem cmd)"
proof -
  have "segmentAdds X Y (snd (execNewChildCmd sem cmd g))" if inv: "segmentAdds X Y g"
    for g :: EditGroup
  proof (cases "cmd_execute sem cmd (model g)")
    case (Inl e)
    then show ?thesis using inv by (simp add: execNewChildCmd_def segmentAdds_def)
  next
    case (Inr p)
    obtain r s' where p: "p = (r, s')" by (cases p)
    obtain adds where adds: "segmentCmds (map fst (mChilds g)) = X @ adds"
      "list_all isSegmentAdd adds"
      using inv by (auto simp: segmentAdds_def)
    have "segmentCmds (map fst (mChilds g @ [(cmd, r)])) = X @ (adds @ [cmd])"
      using adds(1) isSegmentAdd_isSegmentCmd [OF assms] by (simp add: segmentCmds_def)
    moreover have "list_all isSegmentAdd (adds @ [cmd])" using adds(2) assms by simp
    ultimately have "\<exists>adds'. segmentCmds (map fst (mChilds g @ [(cmd, r)])) = X @ adds' \<and>
                       list_all isSegmentAdd adds'"
      by blast
    then show ?thesis
      using inv Inr p by (simp add: execNewChildCmd_def segmentAdds_def)
  qed
  then show ?thesis by (simp add: preserves_def)
qed

lemma preserves_segmentAdds_createSubNetSegment:
  "preserves (segmentAdds X Y) (createSubNetSegment sem netsegment subsegment)"
  unfolding createSubNetSegment_def Let_def
  by (intro preserves_bindA preserves_foldA preserves_case_option preserves_case_prod
      preserves_returnA preserves_throwA preserves_getsA preserves_segmentAdds_exec
      preserves_createRandom preserves_addNetLine_guarded frameInv_segmentAdds)
    (simp_all add: isSegmentAdd_def)

lemma preserves_segmentState_exec:
  assumes "\<not> isSegmentCmd cmd"
  shows "preserves (segmentState X Y) (execNewChildCmd sem cmd)"
  using assms
  by (auto simp: preserves_def segmentState_def segmentCmds_def execNewChildCmd_def
      split: sum.splits)

text \<open>What \<open>performExecute\<close> does after the loop over the net segments.\<close>

definition removeOtherItems :: "EditSem \<Rightarrow> CmdRemoveBoardItems \<Rightarrow> (unit, EditGroup) action" where
  "removeOtherItems sem this =
     (bindA (forA (mDeviceInstances this)
               (\<lambda>device. execChild sem (CmdDeviceInstanceRemove device))) (\<lambda>u.
      bindA (forA (mPlanes this) (\<lambda>plane. execChild sem (CmdBoardPlaneRemove plane))) (\<lambda>u.
      bindA (forA (mPolygons this)
               (\<lambda>polygon. execChild sem (CmdBoardPolygonRemove polygon))) (\<lambda>u.
      bindA (forA (mStrokeTexts this) (removeStrokeText sem (mDeviceInstances this))) (\<lambda>u.
      bindA (forA (mHoles this) (\<lambda>hole. execChild sem (CmdBoardHoleRemove hole))) (\<lambda>u.
      bindA (getsA getChildCount) (\<lambda>n.
        if n > 0 then execChild sem CmdRemoveUnusedLibraryElements else returnA ())))))))"

lemma CmdRemoveBoardItems_body_rounds:
  "CmdRemoveBoardItems_body sem splitter this
     = bindA (forA (netSegmentItemsToRemove this) (removeNetSegmentItems sem splitter))
         (\<lambda>u. removeOtherItems sem this)"
  by (simp add: CmdRemoveBoardItems_body_def removeOtherItems_def)

lemma preserves_segmentState_removeOtherItems:
  "preserves (segmentState X Y) (removeOtherItems sem this)"
  unfolding removeOtherItems_def execChild_def removeStrokeText_def
  by (intro preserves_bindA preserves_forA preserves_if preserves_case_option
      preserves_returnA preserves_getsA preserves_segmentState_exec)
    (simp_all add: isSegmentCmd_def isSegmentAdd_def)

lemma segmentRounds_whole:
  assumes inv: "segmentRounds this X Y segs g"
    and whole: "allItemsSelected this seg"
    and run: "execChild sem (CmdBoardNetSegmentRemove seg) g = (Inr (), g')"
  shows "segmentRounds this X Y (segs @ [seg]) g'"
proof -
  from run obtain r g1 where exec: "execNewChildCmd sem (CmdBoardNetSegmentRemove seg) g = (Inr r, g1)"
    and ret: "returnA () g1 = (Inr (), g')"
    unfolding execChild_def by (rule bindA_Inr)
  have g1: "g1 = g'" using ret by (simp add: returnA_def)
  have childs: "mChilds g' = mChilds g @ [(CmdBoardNetSegmentRemove seg, r)]"
    and calls: "splitterCalls g' = splitterCalls g"
    using execNewChildCmd_Inr [OF exec] g1 by simp_all
  obtain rounds where rounds: "segmentCmds (map fst (mChilds g)) = X @ concat rounds"
    "list_all2 (roundOf this) segs rounds"
    using inv by (auto simp: segmentRounds_def)
  have last: "roundOf this seg [CmdBoardNetSegmentRemove seg]"
    using whole by (simp add: roundOf_def)
  have c: "segmentCmds (map fst (mChilds g'))
          = X @ concat (rounds @ [[CmdBoardNetSegmentRemove seg]])"
    using rounds(1) childs by (simp add: segmentCmds_def isSegmentCmd_Remove)
  have l: "list_all2 (roundOf this) (segs @ [seg])
                   (rounds @ [[CmdBoardNetSegmentRemove seg]])"
    using rounds(2) last by (intro list_all2_appendI) simp_all
  have "\<exists>rounds'. segmentCmds (map fst (mChilds g')) = X @ concat rounds' \<and>
                     list_all2 (roundOf this) (segs @ [seg]) rounds'"
    using c l by (intro exI [of _ "rounds @ [[CmdBoardNetSegmentRemove seg]]"] conjI)
  moreover have "splitterCalls g'
                   = Y @ filter (\<lambda>seg. \<not> allItemsSelected this seg) (segs @ [seg])"
    using inv whole calls by (simp add: segmentRounds_def)
  ultimately show ?thesis by (simp add: segmentRounds_def)
qed

lemma segmentRounds_partial:
  assumes inv: "segmentRounds this X Y segs g"
    and partial: "\<not> allItemsSelected this seg"
    and run: "splitUpNetSegment sem splitter seg items g = (Inr (), g')"
  shows "segmentRounds this X Y (segs @ [seg]) g'"
proof -
  let ?subsegments = "splitter
        (filter (\<lambda>np. np \<notin> set (items_netpoints items)) (remdups (netsegment_netPoints seg)))
        (map bivia_via (filter (\<lambda>v. v \<notin> set (items_vias items)) (remdups (getVias seg))))
        (map netline_trace
           (filter (\<lambda>n. n \<notin> set (items_netlines items)) (remdups (getNetLines seg))))"
  let ?Y = "Y @ filter (\<lambda>seg. \<not> allItemsSelected this seg) (segs @ [seg])"
  from run obtain u g1 where log: "logSplitterCall seg g = (Inr u, g1)"
    and run1: "bindA (execNewChildCmd sem (CmdBoardNetSegmentRemove seg))
                 (\<lambda>r. forA ?subsegments (createSubNetSegment sem seg)) g1 = (Inr (), g')"
    unfolding splitUpNetSegment_def Let_def by (rule bindA_Inr)
  from run1 obtain r g2 where exec: "execNewChildCmd sem (CmdBoardNetSegmentRemove seg) g1 = (Inr r, g2)"
    and subs: "forA ?subsegments (createSubNetSegment sem seg) g2 = (Inr (), g')"
    by (rule bindA_Inr)
  have g1: "mChilds g1 = mChilds g" "splitterCalls g1 = splitterCalls g @ [seg]"
    using log by (auto simp: logSplitterCall_def)
  have g2: "mChilds g2 = mChilds g @ [(CmdBoardNetSegmentRemove seg, r)]"
    "splitterCalls g2 = splitterCalls g @ [seg]"
    using execNewChildCmd_Inr [OF exec] g1 by simp_all
  obtain rounds where rounds: "segmentCmds (map fst (mChilds g)) = X @ concat rounds"
    "list_all2 (roundOf this) segs rounds"
    using inv by (auto simp: segmentRounds_def)
  have calls: "splitterCalls g2 = ?Y"
    using inv partial g2(2) by (simp add: segmentRounds_def)
  have "segmentCmds (map fst (mChilds g2))
          = (X @ concat rounds @ [CmdBoardNetSegmentRemove seg]) @ []"
    using rounds(1) g2(1) by (simp add: segmentCmds_def isSegmentCmd_Remove)
  then have start: "segmentAdds (X @ concat rounds @ [CmdBoardNetSegmentRemove seg]) ?Y g2"
    unfolding segmentAdds_def using calls by (intro conjI exI [of _ "[]"]) simp_all
  have "preserves (segmentAdds (X @ concat rounds @ [CmdBoardNetSegmentRemove seg]) ?Y)
          (forA ?subsegments (createSubNetSegment sem seg))"
    by (intro preserves_forA preserves_segmentAdds_createSubNetSegment)
  then have "segmentAdds (X @ concat rounds @ [CmdBoardNetSegmentRemove seg]) ?Y
               (snd (forA ?subsegments (createSubNetSegment sem seg) g2))"
    using start by (rule preservesD)
  then have "segmentAdds (X @ concat rounds @ [CmdBoardNetSegmentRemove seg]) ?Y g'"
    unfolding subs by simp
  then obtain adds
    where adds: "segmentCmds (map fst (mChilds g'))
                   = (X @ concat rounds @ [CmdBoardNetSegmentRemove seg]) @ adds"
      "list_all isSegmentAdd adds"
    and calls': "splitterCalls g' = ?Y"
    by (auto simp: segmentAdds_def)
  have last: "roundOf this seg (CmdBoardNetSegmentRemove seg # adds)"
    using partial adds(2) by (simp add: roundOf_def)
  have c: "segmentCmds (map fst (mChilds g'))
          = X @ concat (rounds @ [CmdBoardNetSegmentRemove seg # adds])"
    using adds(1) by simp
  have l: "list_all2 (roundOf this) (segs @ [seg])
                   (rounds @ [CmdBoardNetSegmentRemove seg # adds])"
    using rounds(2) last by (intro list_all2_appendI) simp_all
  have "\<exists>rounds'. segmentCmds (map fst (mChilds g')) = X @ concat rounds' \<and>
                     list_all2 (roundOf this) (segs @ [seg]) rounds'"
    using c l by (intro exI [of _ "rounds @ [CmdBoardNetSegmentRemove seg # adds]"] conjI)
  then show ?thesis using calls' by (simp add: segmentRounds_def)
qed

lemma segmentRounds_loop:
  assumes "forA (netSegmentItemsToRemove this) (removeNetSegmentItems sem splitter) g
             = (Inr (), g')"
  shows "segmentRounds this (segmentCmds (map fst (mChilds g))) (splitterCalls g)
           (map fst (netSegmentItemsToRemove this)) g'"
proof -
  let ?X = "segmentCmds (map fst (mChilds g))" and ?Y = "splitterCalls g"
  let ?I = "\<lambda>seen. segmentRounds this ?X ?Y (map fst seen)"
  have step: "?I (seen @ [entry]) g2"
    if entry: "entry \<in> set (netSegmentItemsToRemove this)" and inv: "?I seen g1"
      and run: "removeNetSegmentItems sem splitter entry g1 = (Inr (), g2)"
    for entry seen g1 g2
  proof (cases "allItemsSelected this (fst entry)")
    case True
    then show ?thesis
      using segmentRounds_whole [OF inv True] run removeNetSegmentItems_whole [OF entry True]
      by simp
  next
    case False
    then show ?thesis
      using segmentRounds_partial [OF inv False] run removeNetSegmentItems_partial [OF entry False]
      by simp
  qed
  have start: "?I [] g" by (simp add: segmentRounds_def)
  have "?I ([] @ netSegmentItemsToRemove this) g'"
    using step start assms by (rule forA_progress [where I = ?I])
  then show ?thesis by simp
qed

lemma guardedExecute_Inr:
  assumes "guardedExecute sem body g = (Inr b, g')"
  shows "body g = (Inr (), g')"
  using assms
  by (cases "body g") (auto simp: guardedExecute_def scopeGuard_exit_def split: sum.splits)

lemma performExecute_segmentRounds:
  assumes "CmdRemoveBoardItems_performExecute sem splitter this g = (Inr b, g')"
  shows "segmentRounds this (segmentCmds (map fst (mChilds g))) (splitterCalls g)
           (map fst (netSegmentItemsToRemove this)) g'"
proof -
  let ?X = "segmentCmds (map fst (mChilds g))" and ?Y = "splitterCalls g"
  let ?segs = "map fst (netSegmentItemsToRemove this)"
  have "CmdRemoveBoardItems_body sem splitter this g = (Inr (), g')"
    using assms unfolding CmdRemoveBoardItems_performExecute_def by (rule guardedExecute_Inr)
  then obtain u g1
    where loop: "forA (netSegmentItemsToRemove this) (removeNetSegmentItems sem splitter) g
                   = (Inr u, g1)"
      and rest: "removeOtherItems sem this g1 = (Inr (), g')"
    unfolding CmdRemoveBoardItems_body_rounds by (rule bindA_Inr)
  have inv: "segmentRounds this ?X ?Y ?segs g1"
    using loop by (intro segmentRounds_loop) simp
  have "segmentState (segmentCmds (map fst (mChilds g1))) (splitterCalls g1) g1"
    by (simp add: segmentState_def)
  with preserves_segmentState_removeOtherItems
  have "segmentState (segmentCmds (map fst (mChilds g1))) (splitterCalls g1)
          (snd (removeOtherItems sem this g1))"
    by (rule preservesD)
  then have "segmentCmds (map fst (mChilds g')) = segmentCmds (map fst (mChilds g1))"
    and "splitterCalls g' = splitterCalls g1"
    using rest by (simp_all add: segmentState_def)
  then show ?thesis using inv by (simp add: segmentRounds_def)
qed

text \<open>
  C3. The loop "remove vias/netlines/netpoints/netsegments" has one round for each net
  segment with an item to remove. When all vias and all net lines of the segment are
  among the items to remove, the round is the execution of one
  \<open>CmdBoardNetSegmentRemove\<close> for the segment and nothing else, so the splitter is not
  run. When \<open>performExecute\<close> completes, the children that concern net segments are those
  of the rounds of all these segments, in order: for a segment removed as a whole the one
  \<open>CmdBoardNetSegmentRemove\<close>, for any other that command followed by the commands that
  build its remaining sub-segments; and the splitter was run once for each segment not
  removed as a whole and for no other. Whether \<open>performExecute\<close> completes or not, the
  splitter is run only for segments that have an item to remove and are not removed as a
  whole.
\<close>

theorem whole_segment_removed_without_split:
  "distinct (map fst (netSegmentItemsToRemove this)) \<and>
   fst ` set (netSegmentItemsToRemove this) = affectedSegments this \<and>
   (\<forall>entry \<in> set (netSegmentItemsToRemove this).
      allItemsSelected this (fst entry) \<longrightarrow>
        removeNetSegmentItems sem splitter entry
          = execChild sem (CmdBoardNetSegmentRemove (fst entry))) \<and>
   (CmdRemoveBoardItems_performExecute sem splitter this g = (Inr b, g') \<longrightarrow>
      (\<exists>rounds. segmentCmds (map fst (mChilds g'))
                   = segmentCmds (map fst (mChilds g)) @ concat rounds \<and>
                 list_all2 (roundOf this) (map fst (netSegmentItemsToRemove this)) rounds) \<and>
      splitterCalls g'
        = splitterCalls g
          @ filter (\<lambda>seg. \<not> allItemsSelected this seg)
              (map fst (netSegmentItemsToRemove this))) \<and>
   (\<forall>seg \<in> set (splitterCalls (snd (CmdRemoveBoardItems_performExecute sem splitter this g)))
             - set (splitterCalls g).
      seg \<in> affectedSegments this \<and> \<not> allItemsSelected this seg)"
proof -
  have "splitOnlyPartial this (splitterCalls g) g" by (simp add: splitOnlyPartial_def)
  moreover have "preserves (splitOnlyPartial this (splitterCalls g))
                   (CmdRemoveBoardItems_body sem splitter this)"
    by (rule preserves_CmdRemoveBoardItems_body_log [OF groupInv_splitOnlyPartial])
       (rule preserves_splitOnlyPartial_log)
  ultimately have "splitOnlyPartial this (splitterCalls g)
                     (snd (CmdRemoveBoardItems_body sem splitter this g))"
    by (simp add: preserves_def)
  then have log: "\<forall>seg \<in> set (splitterCalls
                      (snd (CmdRemoveBoardItems_performExecute sem splitter this g)))
                    - set (splitterCalls g).
                  seg \<in> affectedSegments this \<and> \<not> allItemsSelected this seg"
    by (simp add: splitOnlyPartial_def CmdRemoveBoardItems_performExecute_def
        guardedExecute_splitterCalls)
  have rounds: "CmdRemoveBoardItems_performExecute sem splitter this g = (Inr b, g') \<longrightarrow>
      (\<exists>rounds. segmentCmds (map fst (mChilds g'))
                   = segmentCmds (map fst (mChilds g)) @ concat rounds \<and>
                 list_all2 (roundOf this) (map fst (netSegmentItemsToRemove this)) rounds) \<and>
      splitterCalls g'
        = splitterCalls g
          @ filter (\<lambda>seg. \<not> allItemsSelected this seg)
              (map fst (netSegmentItemsToRemove this))"
    using performExecute_segmentRounds [of sem splitter this g b g']
    by (simp add: segmentRounds_def)
  have whole: "\<forall>entry \<in> set (netSegmentItemsToRemove this).
      allItemsSelected this (fst entry) \<longrightarrow>
        removeNetSegmentItems sem splitter entry
          = execChild sem (CmdBoardNetSegmentRemove (fst entry))"
    using removeNetSegmentItems_whole by blast
  show ?thesis
    by (intro conjI netSegmentItemsToRemove_distinct netSegmentItemsToRemove_keys whole rounds
        log)
qed


text \<open>
  A board with a second net segment. The whole of the first segment is selected, and of
  the second only its net line.
\<close>

definition otherVia :: Via where
  "otherVia = \<lparr>via_uuid = 13, via_position = (50, 0), via_shape = Round, via_size = 800000,
                via_drillDiameter = 300000\<rparr>"

definition otherNetPoint :: NetPoint where
  "otherNetPoint = \<lparr>mUuid = 15, mPosition = (55, 0)\<rparr>"

definition otherTrace :: Trace where
  "otherTrace = \<lparr>trace_uuid = 14, trace_layer = ''top_cu'', trace_width = 200000,
                  trace_startPoint = TA_via 13, trace_endPoint = TA_netPoint 15\<rparr>"

definition otherNetSegment :: BI_NetSegment where
  "otherNetSegment =
     \<lparr>netsegment_uuid = 21, netsegment_netSignal = demoNetSignal,
      netsegment_vias = [otherVia], netsegment_netPoints = [otherNetPoint],
      netsegment_netLines = [otherTrace]\<rparr>"

definition otherBINetLine :: BI_NetLine where
  "otherBINetLine = \<lparr>netline_trace = otherTrace, netline_netSegment = otherNetSegment\<rparr>"

definition twoSegmentGroup :: EditGroup where
  "twoSegmentGroup =
     demoGroup\<lparr>model := demoProject\<lparr>prj_netSegments := [demoNetSegment, otherNetSegment]\<rparr>\<rparr>"

definition removeOneAndAHalf :: CmdRemoveBoardItems where
  "removeOneAndAHalf =
     \<lparr>mDeviceInstances = [], mVias = [demoBIVia], mNetLines = [demoBINetLine, otherBINetLine],
      mPlanes = [], mPolygons = [], mStrokeTexts = [], mHoles = []\<rparr>"

text \<open>The segment that \<open>CmdBoardNetSegmentAdd\<close> creates for what is left of the second.\<close>

definition rebuiltSegment :: BI_NetSegment where
  "rebuiltSegment =
     \<lparr>netsegment_uuid = 1, netsegment_netSignal = demoNetSignal, netsegment_vias = [],
      netsegment_netPoints = [], netsegment_netLines = []\<rparr>"

theorem whole_segment_removed_without_split_witness:
  "allItemsSelected removeOneAndAHalf demoNetSegment \<and>
   \<not> allItemsSelected removeOneAndAHalf otherNetSegment \<and>
   map fst (netSegmentItemsToRemove removeOneAndAHalf) = [demoNetSegment, otherNetSegment] \<and>
   removeNetSegmentItems stdSem wholeSegment (hd (netSegmentItemsToRemove removeOneAndAHalf))
     = execChild stdSem (CmdBoardNetSegmentRemove demoNetSegment) \<and>
   fst (CmdRemoveBoardItems_performExecute stdSem wholeSegment removeOneAndAHalf twoSegmentGroup)
     = Inr True \<and>
   map fst (mChilds (snd (CmdRemoveBoardItems_performExecute stdSem wholeSegment
     removeOneAndAHalf twoSegmentGroup)))
     = [CmdBoardNetSegmentRemove demoNetSegment,
        CmdBoardNetSegmentRemove otherNetSegment,
        CmdBoardNetSegmentAdd demoNetSignal None,
        CmdBoardNetSegmentAddElements rebuiltSegment [otherVia]
          [\<lparr>mUuid = 100, mPosition = (55, 0)\<rparr>] [],
        CmdRemoveUnusedLibraryElements] \<and>
   (\<exists>rounds.
      segmentCmds (map fst (mChilds (snd (CmdRemoveBoardItems_performExecute stdSem wholeSegment
        removeOneAndAHalf twoSegmentGroup)))) = concat rounds \<and>
      list_all2 (roundOf removeOneAndAHalf) [demoNetSegment, otherNetSegment] rounds) \<and>
   splitterCalls (snd (CmdRemoveBoardItems_performExecute stdSem wholeSegment removeOneAndAHalf
     twoSegmentGroup)) = [otherNetSegment] \<and>
   otherNetSegment \<in> affectedSegments removeOneAndAHalf"
proof -
  let ?P = "CmdRemoveBoardItems_performExecute stdSem wholeSegment removeOneAndAHalf
              twoSegmentGroup"
  let ?entry = "hd (netSegmentItemsToRemove removeOneAndAHalf)"
  have keys: "map fst (netSegmentItemsToRemove removeOneAndAHalf)
                = [demoNetSegment, otherNetSegment]"
    by code_simp
  then have entry: "?entry \<in> set (netSegmentItemsToRemove removeOneAndAHalf)"
    and fst_entry: "fst ?entry = demoNetSegment"
    by (cases "netSegmentItemsToRemove removeOneAndAHalf"; simp)+
  have differ: "demoNetSegment \<noteq> otherNetSegment"
    by (simp add: demoNetSegment_def otherNetSegment_def)
  have all: "allItemsSelected removeOneAndAHalf demoNetSegment"
    using differ
    by (auto simp: allItemsSelected_def selectedVias_def selectedNetLines_def
        netLinesToRemove_def removeOneAndAHalf_def getVias_def getNetLines_def
        demoBIVia_def demoBINetLine_def otherBINetLine_def demoNetSegment_def)
  have "selectedVias removeOneAndAHalf otherNetSegment = {}"
    using differ by (auto simp: selectedVias_def removeOneAndAHalf_def demoBIVia_def)
  moreover have "set (getVias otherNetSegment) \<noteq> {}"
    by (simp add: getVias_def otherNetSegment_def)
  ultimately have part: "\<not> allItemsSelected removeOneAndAHalf otherNetSegment"
    by (simp add: allItemsSelected_def)
  have r: "fst ?P = Inr True" by code_simp
  have c: "map fst (mChilds (snd ?P))
             = [CmdBoardNetSegmentRemove demoNetSegment,
                CmdBoardNetSegmentRemove otherNetSegment,
                CmdBoardNetSegmentAdd demoNetSignal None,
                CmdBoardNetSegmentAddElements rebuiltSegment [otherVia]
                  [\<lparr>mUuid = 100, mPosition = (55, 0)\<rparr>] [],
                CmdRemoveUnusedLibraryElements]"
    by code_simp
  have p: "?P = (Inr True, snd ?P)" using r by (metis prod.collapse)
  have start: "segmentCmds (map fst (mChilds twoSegmentGroup)) = []"
    "splitterCalls twoSegmentGroup = []"
    by (simp_all add: twoSegmentGroup_def demoGroup_def segmentCmds_def)
  note t = whole_segment_removed_without_split
    [of removeOneAndAHalf stdSem wholeSegment twoSegmentGroup True "snd ?P"]
  have round: "removeNetSegmentItems stdSem wholeSegment ?entry
                 = execChild stdSem (CmdBoardNetSegmentRemove demoNetSegment)"
    using t [THEN conjunct2, THEN conjunct2, THEN conjunct1, THEN bspec, OF entry] all fst_entry
    by simp
  have rounds: "(\<exists>rounds. segmentCmds (map fst (mChilds (snd ?P))) = concat rounds \<and>
                   list_all2 (roundOf removeOneAndAHalf) [demoNetSegment, otherNetSegment] rounds) \<and>
                splitterCalls (snd ?P) = [otherNetSegment]"
    using t [THEN conjunct2, THEN conjunct2, THEN conjunct2, THEN conjunct1] p all part
    by (simp add: keys start)
  have affected: "otherNetSegment \<in> affectedSegments removeOneAndAHalf"
    using t [THEN conjunct2, THEN conjunct1] keys
    by (metis image_set list.set_intros(1) list.set_intros(2))
  show ?thesis
    using all part keys round r c rounds affected by (intro conjI) simp_all
qed


section \<open>Net segment splitter\<close>

text \<open>
  Modelled from the spec: \<open>split()\<close>, \<open>insertMissingAnchors()\<close> and
  \<open>insertMissingAnchor()\<close> of the net segment splitter, of which only the class
  declaration is at hand. The data follow section 3 of the specification: an anchor is
  a Junction, a Via or a Pad with a stable identity and a position; an edge connects two
  anchors, named by their identities, and knows the positions of its two ends; a segment
  holds anchors, edges and labels.
\<close>

datatype AnchorKind = JunctionAnchor | ViaAnchor | PadAnchor

record Anchor =
  anchor_uuid :: Uuid
  anchor_kind :: AnchorKind
  anchor_position :: Point

record Edge =
  edge_uuid :: Uuid
  edge_start :: Uuid
  edge_end :: Uuid
  edge_startPos :: Point
  edge_endPos :: Point

record Label =
  label_uuid :: Uuid
  label_position :: Point

record Segment =
  seg_anchors :: "Anchor list"
  seg_edges :: "Edge list"
  seg_labels :: "Label list"

definition emptySegment :: Segment where
  "emptySegment = \<lparr>seg_anchors = [], seg_edges = [], seg_labels = []\<rparr>"

definition endpoints :: "Edge \<Rightarrow> Uuid list" where
  "endpoints e = [edge_start e, edge_end e]"

definition incident :: "Uuid \<Rightarrow> Edge \<Rightarrow> bool" where
  "incident a e = (edge_start e = a \<or> edge_end e = a)"

text \<open>
  Modelled from the spec: step 1, the adjacency structure. Each edge contributes one
  link between its two endpoints; the links of an anchor are the edges that end at it.
\<close>

definition adjacency :: "Edge list \<Rightarrow> Uuid \<Rightarrow> Edge list" where
  "adjacency edges a = filter (incident a) edges"

text \<open>
  Modelled from the spec: step 2, "insert missing anchor". An endpoint that is not among
  the anchors gets a new Junction at the former position of that end of the edge, and
  the Junction is the endpoint from then on. The identity of the new Junction is unused
  so far: it differs from every anchor and from every endpoint an edge names.
\<close>

definition insertMissingAnchor ::
  "Uuid list \<Rightarrow> Uuid \<Rightarrow> Point \<Rightarrow> Anchor list \<Rightarrow> Uuid option \<times> Anchor list" where
  "insertMissingAnchor reserved anchor position anchors =
     (if anchor \<in> anchor_uuid ` set anchors then (None, anchors)
      else let uuid = freshUuid (map anchor_uuid anchors @ reserved)
           in (Some uuid,
               anchors @ [\<lparr>anchor_uuid = uuid, anchor_kind = JunctionAnchor,
                            anchor_position = position\<rparr>]))"

definition substituted :: "Uuid \<Rightarrow> Uuid option \<Rightarrow> Uuid" where
  "substituted anchor replacement = (case replacement of None \<Rightarrow> anchor | Some uuid \<Rightarrow> uuid)"

fun insertMissingAnchors ::
  "Uuid list \<Rightarrow> Edge list \<Rightarrow> Anchor list \<Rightarrow> Edge list \<times> Anchor list" where
  "insertMissingAnchors reserved [] anchors = ([], anchors)"
| "insertMissingAnchors reserved (e # es) anchors =
     (let (newStart, anchors1) =
            insertMissingAnchor reserved (edge_start e) (edge_startPos e) anchors;
          (newEnd, anchors2) =
            insertMissingAnchor reserved (edge_end e) (edge_endPos e) anchors1;
          e' = e\<lparr>edge_start := substituted (edge_start e) newStart,
                 edge_end := substituted (edge_end e) newEnd\<rparr>;
          (es', anchors3) = insertMissingAnchors reserved es anchors2
      in (e' # es', anchors3))"

text \<open>
  Modelled from the spec: step 3, the traversal. The anchors on the work list are
  visited in turn; a visit moves the anchor and the edges that end at it from what is
  still available into the segment, and puts the endpoints of those edges on the work
  list.
\<close>

function traverse ::
  "Uuid list \<Rightarrow> Anchor list \<Rightarrow> Edge list \<Rightarrow> Segment \<Rightarrow> Segment \<times> Anchor list \<times> Edge list" where
  "traverse [] anchors edges seg = (seg, anchors, edges)"
| "traverse (a # todo) anchors edges seg =
     (let here = filter (\<lambda>x. anchor_uuid x = a) anchors;
          links = adjacency edges a
      in traverse (todo @ concat (map endpoints links))
           (filter (\<lambda>x. anchor_uuid x \<noteq> a) anchors)
           (filter (\<lambda>e. \<not> incident a e) edges)
           (seg\<lparr>seg_anchors := seg_anchors seg @ here, seg_edges := seg_edges seg @ links\<rparr>))"
  by pat_completeness auto

lemma length_concat_endpoints: "length (concat (map endpoints es)) = 2 * length es"
  by (induction es) (simp_all add: endpoints_def)

termination traverse
proof (relation "measure (\<lambda>(todo, anchors, edges, seg). 3 * length edges + length todo)")
  show "wf (measure (\<lambda>(todo, anchors, edges, seg). 3 * length edges + length todo))"
    by simp
next
  fix a :: Uuid and todo :: "Uuid list" and anchors :: "Anchor list" and edges :: "Edge list"
    and seg :: Segment and here links
  assume "links = adjacency edges a"
  then have "length edges = length links + length (filter (\<lambda>e. \<not> incident a e) edges)"
    by (simp add: adjacency_def sum_length_filter_compl)
  then show "((todo @ concat (map endpoints links),
               filter (\<lambda>x. anchor_uuid x \<noteq> a) anchors,
               filter (\<lambda>e. \<not> incident a e) edges,
               seg\<lparr>seg_anchors := seg_anchors seg @ here, seg_edges := seg_edges seg @ links\<rparr>),
              (a # todo, anchors, edges, seg))
             \<in> measure (\<lambda>(todo, anchors, edges, seg). 3 * length edges + length todo)"
    by (simp add: length_concat_endpoints)
qed


text \<open>
  Modelled from the spec: step 3, the components. As long as an anchor is available, a
  traversal from it collects one component; the next component is collected from what
  the traversal left.
\<close>

lemma traverse_length:
  "length (fst (snd (traverse todo anchors edges seg))) \<le> length anchors"
proof (induction todo anchors edges seg rule: traverse.induct)
  case (1 anchors edges seg)
  then show ?case by simp
next
  case (2 a todo anchors edges seg)
  let ?rest = "traverse (todo @ concat (map endpoints (adjacency edges a)))
                 (filter (\<lambda>x. anchor_uuid x \<noteq> a) anchors)
                 (filter (\<lambda>e. \<not> incident a e) edges)
                 (seg\<lparr>seg_anchors := seg_anchors seg @ filter (\<lambda>x. anchor_uuid x = a) anchors,
                      seg_edges := seg_edges seg @ adjacency edges a\<rparr>)"
  have "length (fst (snd ?rest)) \<le> length (filter (\<lambda>x. anchor_uuid x \<noteq> a) anchors)"
    using 2 [OF refl refl] .
  also have "\<dots> \<le> length anchors" by simp
  finally show ?case by (simp add: Let_def)
qed

lemma traverse_shrinks:
  "length (fst (snd (traverse [anchor_uuid a] (a # anchors) edges seg))) < length (a # anchors)"
proof -
  have "length (fst (snd (traverse [anchor_uuid a] (a # anchors) edges seg)))
          \<le> length (filter (\<lambda>x. anchor_uuid x \<noteq> anchor_uuid a) anchors)"
    using traverse_length by (simp add: Let_def)
  also have "\<dots> \<le> length anchors" by simp
  finally show ?thesis by simp
qed

function components :: "Anchor list \<Rightarrow> Edge list \<Rightarrow> Segment list" where
  "components [] edges = []"
| "components (a # anchors) edges =
     (let (seg, anchors', edges') = traverse [anchor_uuid a] (a # anchors) edges emptySegment
      in seg # components anchors' edges')"
  by pat_completeness auto

termination components
proof (relation "measure (\<lambda>(anchors, edges). length anchors)")
  show "wf (measure (\<lambda>(anchors, edges). length anchors))" by simp
next
  fix a anchors edges x seg y anchors' edges'
  assume "x = traverse [anchor_uuid a] (a # anchors) edges emptySegment"
    and "(seg, y) = x" and "(anchors', edges') = y"
  then have "anchors' = fst (snd (traverse [anchor_uuid a] (a # anchors) edges emptySegment))"
    by (metis fst_conv snd_conv)
  then show "((anchors', edges'), (a # anchors, edges)) \<in> measure (\<lambda>(anchors, edges). length anchors)"
    using traverse_shrinks [of a anchors edges emptySegment] by simp
qed

text \<open>
  Modelled from the spec: step 4. A component that consists solely of zero-degree
  Junctions (no Via, no Pad, no edge) is dropped.
\<close>

definition onlyLooseJunctions :: "Segment \<Rightarrow> bool" where
  "onlyLooseJunctions seg =
     (seg_edges seg = [] \<and> list_all (\<lambda>a. anchor_kind a = JunctionAnchor) (seg_anchors seg))"

text \<open>
  Modelled from the spec: step 5. A label goes to the component with the smallest
  distance from the label to any anchor of the component, the first such component on a
  tie. The specification leaves the metric open; the squared Euclidean distance is used.
\<close>

definition distance2 :: "Point \<Rightarrow> Point \<Rightarrow> int" where
  "distance2 p q = (fst p - fst q) * (fst p - fst q) + (snd p - snd q) * (snd p - snd q)"

definition labelDistance :: "Label \<Rightarrow> Segment \<Rightarrow> int" where
  "labelDistance label seg =
     (case map (\<lambda>a. distance2 (label_position label) (anchor_position a)) (seg_anchors seg) of
        [] \<Rightarrow> 0
      | d # ds \<Rightarrow> fold min ds d)"

fun nearestFrom :: "Label \<Rightarrow> nat \<Rightarrow> int \<Rightarrow> nat \<Rightarrow> Segment list \<Rightarrow> nat" where
  "nearestFrom label best bestDistance i [] = best"
| "nearestFrom label best bestDistance i (seg # segs) =
     (if labelDistance label seg < bestDistance
      then nearestFrom label i (labelDistance label seg) (Suc i) segs
      else nearestFrom label best bestDistance (Suc i) segs)"

definition nearestSegment :: "Label \<Rightarrow> Segment list \<Rightarrow> nat" where
  "nearestSegment label segs =
     (case segs of [] \<Rightarrow> 0 | seg # rest \<Rightarrow> nearestFrom label 0 (labelDistance label seg) 1 rest)"

definition assignLabels :: "Label list \<Rightarrow> Segment list \<Rightarrow> Segment list" where
  "assignLabels labels segs =
     map (\<lambda>(i, seg). seg\<lparr>seg_labels := filter (\<lambda>l. nearestSegment l segs = i) labels\<rparr>)
       (enumerate 0 segs)"

text \<open>Modelled from the spec: \<open>split(anchors, edges, labels)\<close>, steps 1 to 5 in order.\<close>

definition reservedUuids :: "Edge list \<Rightarrow> Uuid list" where
  "reservedUuids edges = concat (map endpoints edges)"

definition split :: "Anchor list \<Rightarrow> Edge list \<Rightarrow> Label list \<Rightarrow> Segment list" where
  "split anchors edges labels =
     (let (edges', anchors') = insertMissingAnchors (reservedUuids edges) edges anchors;
          candidates = components anchors' edges';
          kept = filter (\<lambda>seg. \<not> onlyLooseJunctions seg) candidates
      in assignLabels labels kept)"

text \<open>The anchors that step 2 synthesizes, and the edges as step 2 leaves them.\<close>

definition synthesizedAnchors :: "Anchor list \<Rightarrow> Edge list \<Rightarrow> Anchor list" where
  "synthesizedAnchors anchors edges =
     drop (length anchors) (snd (insertMissingAnchors (reservedUuids edges) edges anchors))"

definition substitutedEdges :: "Anchor list \<Rightarrow> Edge list \<Rightarrow> Edge list" where
  "substitutedEdges anchors edges =
     fst (insertMissingAnchors (reservedUuids edges) edges anchors)"


section \<open>Properties of the splitter\<close>

lemma fold_max_ge: "(a::nat) \<le> fold max xs a \<and> (\<forall>x \<in> set xs. x \<le> fold max xs a)"
proof (induction xs arbitrary: a)
  case Nil
  then show ?case by simp
next
  case (Cons y ys)
  have "max y a \<le> fold max ys (max y a)" and "\<forall>x \<in> set ys. x \<le> fold max ys (max y a)"
    using Cons.IH [of "max y a"] by simp_all
  then show ?case by auto
qed

lemma freshUuid_fresh: "freshUuid used \<notin> set used"
proof
  assume "freshUuid used \<in> set used"
  then have "freshUuid used \<le> fold max used 0" using fold_max_ge by blast
  then show False by (simp add: freshUuid_def)
qed

text \<open>What one call of \<open>insertMissingAnchor\<close> does.\<close>

lemma insertMissingAnchor_present:
  "anchor \<in> anchor_uuid ` set anchors \<Longrightarrow>
     insertMissingAnchor reserved anchor position anchors = (None, anchors)"
  by (simp add: insertMissingAnchor_def)

lemma insertMissingAnchor_missing:
  assumes "anchor \<notin> anchor_uuid ` set anchors"
  shows "\<exists>uuid. insertMissingAnchor reserved anchor position anchors
           = (Some uuid, anchors @ [\<lparr>anchor_uuid = uuid, anchor_kind = JunctionAnchor,
                                      anchor_position = position\<rparr>]) \<and>
         uuid \<notin> anchor_uuid ` set anchors \<and> uuid \<notin> set reserved"
proof -
  let ?u = "freshUuid (map anchor_uuid anchors @ reserved)"
  have "?u \<notin> set (map anchor_uuid anchors @ reserved)" by (rule freshUuid_fresh)
  then show ?thesis using assms by (auto simp: insertMissingAnchor_def Let_def)
qed

text \<open>
  The relation between an edge and what step 2 makes of it, seen from the anchors at
  hand before the step: an endpoint that is among them stays; one that is not is
  replaced by a new Junction at the position of that end.
\<close>

definition endSubstituted ::
  "Uuid list \<Rightarrow> Anchor list \<Rightarrow> Anchor list \<Rightarrow> Uuid \<Rightarrow> Point \<Rightarrow> Uuid \<Rightarrow> bool" where
  "endSubstituted reserved before after old position new =
     (if old \<in> anchor_uuid ` set before then new = old
      else new \<notin> anchor_uuid ` set before \<and> new \<notin> set reserved \<and>
           \<lparr>anchor_uuid = new, anchor_kind = JunctionAnchor, anchor_position = position\<rparr>
             \<in> set after)"

definition edgeSubstituted ::
  "Uuid list \<Rightarrow> Anchor list \<Rightarrow> Anchor list \<Rightarrow> Edge \<Rightarrow> Edge \<Rightarrow> bool" where
  "edgeSubstituted reserved before after e e' =
     (edge_uuid e' = edge_uuid e \<and> edge_startPos e' = edge_startPos e \<and>
      edge_endPos e' = edge_endPos e \<and>
      endSubstituted reserved before after (edge_start e) (edge_startPos e) (edge_start e') \<and>
      endSubstituted reserved before after (edge_end e) (edge_endPos e) (edge_end e'))"

definition newJunctions :: "Uuid list \<Rightarrow> Anchor list \<Rightarrow> Anchor list \<Rightarrow> bool" where
  "newJunctions reserved before added =
     (distinct (map anchor_uuid added) \<and>
      (\<forall>s \<in> set added. anchor_kind s = JunctionAnchor \<and> anchor_uuid s \<notin> set reserved \<and>
                         anchor_uuid s \<notin> anchor_uuid ` set before))"

lemma insertMissingAnchor_cases:
  obtains (present) "anchor \<in> anchor_uuid ` set anchors"
      "insertMissingAnchor reserved anchor position anchors = (None, anchors)"
  | (missing) uuid where "anchor \<notin> anchor_uuid ` set anchors"
      "insertMissingAnchor reserved anchor position anchors
         = (Some uuid, anchors @ [\<lparr>anchor_uuid = uuid, anchor_kind = JunctionAnchor,
                                    anchor_position = position\<rparr>])"
      "uuid \<notin> anchor_uuid ` set anchors" "uuid \<notin> set reserved"
  using insertMissingAnchor_present insertMissingAnchor_missing by metis

lemma newJunctions_append:
  assumes "newJunctions reserved before xs" and "newJunctions reserved (before @ xs) ys"
  shows "newJunctions reserved before (xs @ ys)"
proof -
  have d: "distinct (map anchor_uuid xs)" "distinct (map anchor_uuid ys)"
    using assms by (simp_all add: newJunctions_def)
  have apart: "\<forall>s \<in> set ys. anchor_uuid s \<notin> anchor_uuid ` set xs"
    using assms(2) by (simp add: newJunctions_def image_Un)
  have disj: "anchor_uuid ` set xs \<inter> anchor_uuid ` set ys = {}"
  proof (rule equals0I)
    fix u
    assume "u \<in> anchor_uuid ` set xs \<inter> anchor_uuid ` set ys"
    then have ux: "u \<in> anchor_uuid ` set xs" and uy: "u \<in> anchor_uuid ` set ys"
      by simp_all
    from uy obtain s where s: "u = anchor_uuid s" "s \<in> set ys" by (rule imageE)
    show False using apart s ux by simp
  qed
  have each: "\<forall>s \<in> set (xs @ ys). anchor_kind s = JunctionAnchor \<and>
                anchor_uuid s \<notin> set reserved \<and> anchor_uuid s \<notin> anchor_uuid ` set before"
    using assms by (auto simp: newJunctions_def)
  show ?thesis
    unfolding newJunctions_def using d disj each by simp
qed

lemma endSubstituted_weaken:
  assumes sub: "endSubstituted reserved B C old pos new"
    and old: "old \<in> set reserved"
    and B: "set B = set before \<union> set extra"
    and extra: "\<forall>s \<in> set extra. anchor_uuid s \<notin> set reserved"
    and C: "set C \<subseteq> set after"
  shows "endSubstituted reserved before after old pos new"
proof (cases "old \<in> anchor_uuid ` set before")
  case True
  then have "old \<in> anchor_uuid ` set B" using B by blast
  then show ?thesis using sub True by (simp add: endSubstituted_def)
next
  case False
  have "old \<notin> anchor_uuid ` set extra" using old extra by blast
  then have notB: "old \<notin> anchor_uuid ` set B" using False B by blast
  have "new \<notin> anchor_uuid ` set B" and "new \<notin> set reserved"
    and "\<lparr>anchor_uuid = new, anchor_kind = JunctionAnchor, anchor_position = pos\<rparr> \<in> set C"
    using sub notB by (simp_all add: endSubstituted_def)
  then show ?thesis using False B C by (auto simp: endSubstituted_def)
qed

lemma edgeSubstituted_weaken:
  assumes "edgeSubstituted reserved B C e e'"
    and "edge_start e \<in> set reserved" and "edge_end e \<in> set reserved"
    and "set B = set before \<union> set extra"
    and "\<forall>s \<in> set extra. anchor_uuid s \<notin> set reserved"
    and "set C \<subseteq> set after"
  shows "edgeSubstituted reserved before after e e'"
proof -
  have s0: "endSubstituted reserved B C (edge_start e) (edge_startPos e) (edge_start e')"
    and e0: "endSubstituted reserved B C (edge_end e) (edge_endPos e) (edge_end e')"
    and same: "edge_uuid e' = edge_uuid e" "edge_startPos e' = edge_startPos e"
      "edge_endPos e' = edge_endPos e"
    using assms(1) by (simp_all add: edgeSubstituted_def)
  have "endSubstituted reserved before after (edge_start e) (edge_startPos e) (edge_start e')"
    using s0 assms(2) assms(4,5,6) by (rule endSubstituted_weaken)
  moreover
  have "endSubstituted reserved before after (edge_end e) (edge_endPos e) (edge_end e')"
    using e0 assms(3) assms(4,5,6) by (rule endSubstituted_weaken)
  ultimately show ?thesis using same by (simp add: edgeSubstituted_def)
qed

lemma insertMissingAnchor_step:
  "\<exists>added. snd (insertMissingAnchor reserved old pos anchors) = anchors @ added \<and>
     newJunctions reserved anchors added \<and>
     endSubstituted reserved anchors (anchors @ added) old pos
       (substituted old (fst (insertMissingAnchor reserved old pos anchors))) \<and>
     substituted old (fst (insertMissingAnchor reserved old pos anchors))
       \<in> anchor_uuid ` set (anchors @ added)"
proof (cases rule: insertMissingAnchor_cases [of old anchors reserved pos])
  case present
  then show ?thesis
    by (intro exI [of _ "[]"]) (simp add: newJunctions_def endSubstituted_def substituted_def)
next
  case (missing uuid)
  then show ?thesis
    by (intro exI [of _ "[\<lparr>anchor_uuid = uuid, anchor_kind = JunctionAnchor,
                           anchor_position = pos\<rparr>]"])
       (simp add: newJunctions_def endSubstituted_def substituted_def)
qed

lemma insertMissingAnchors_spec:
  assumes "set (concat (map endpoints es)) \<subseteq> set reserved"
  shows "\<exists>added. snd (insertMissingAnchors reserved es anchors) = anchors @ added \<and>
           newJunctions reserved anchors added \<and>
           list_all2 (edgeSubstituted reserved anchors (anchors @ added)) es
             (fst (insertMissingAnchors reserved es anchors)) \<and>
           (\<forall>e' \<in> set (fst (insertMissingAnchors reserved es anchors)).
              \<forall>u \<in> set (endpoints e'). u \<in> anchor_uuid ` set (anchors @ added))"
  using assms
proof (induction es arbitrary: anchors)
  case Nil
  then show ?case by (simp add: newJunctions_def)
next
  case (Cons e es)
  have res: "edge_start e \<in> set reserved" "edge_end e \<in> set reserved"
    and rest: "set (concat (map endpoints es)) \<subseteq> set reserved"
    using Cons.prems by (auto simp: endpoints_def)
  let ?s1 = "insertMissingAnchor reserved (edge_start e) (edge_startPos e) anchors"
  obtain added1 where a1: "snd ?s1 = anchors @ added1"
    and n1: "newJunctions reserved anchors added1"
    and e1: "endSubstituted reserved anchors (anchors @ added1) (edge_start e) (edge_startPos e)
               (substituted (edge_start e) (fst ?s1))"
    and in1: "substituted (edge_start e) (fst ?s1) \<in> anchor_uuid ` set (anchors @ added1)"
    using insertMissingAnchor_step by blast
  let ?A1 = "anchors @ added1"
  let ?s2 = "insertMissingAnchor reserved (edge_end e) (edge_endPos e) ?A1"
  obtain added2 where a2: "snd ?s2 = ?A1 @ added2"
    and n2: "newJunctions reserved ?A1 added2"
    and e2: "endSubstituted reserved ?A1 (?A1 @ added2) (edge_end e) (edge_endPos e)
               (substituted (edge_end e) (fst ?s2))"
    and in2: "substituted (edge_end e) (fst ?s2) \<in> anchor_uuid ` set (?A1 @ added2)"
    using insertMissingAnchor_step by blast
  let ?A2 = "?A1 @ added2"
  let ?rec = "insertMissingAnchors reserved es ?A2"
  obtain added3 where a3: "snd ?rec = ?A2 @ added3"
    and n3: "newJunctions reserved ?A2 added3"
    and l3: "list_all2 (edgeSubstituted reserved ?A2 (?A2 @ added3)) es (fst ?rec)"
    and w3: "\<forall>e' \<in> set (fst ?rec). \<forall>u \<in> set (endpoints e'). u \<in> anchor_uuid ` set (?A2 @ added3)"
    using Cons.IH [OF rest, of ?A2] by blast
  let ?added = "added1 @ added2 @ added3"
  let ?e' = "e\<lparr>edge_start := substituted (edge_start e) (fst ?s1),
                edge_end := substituted (edge_end e) (fst ?s2)\<rparr>"
  have final: "insertMissingAnchors reserved (e # es) anchors = (?e' # fst ?rec, anchors @ ?added)"
    using a1 a2 a3 by (simp add: Let_def case_prod_beta)
  have n12: "newJunctions reserved anchors (added1 @ added2)"
    using n1 n2 by (rule newJunctions_append)
  have new: "newJunctions reserved anchors ?added"
    using newJunctions_append [OF n12] n3 by simp
  have x12: "\<forall>s \<in> set (added1 @ added2). anchor_uuid s \<notin> set reserved"
    using n12 by (simp add: newJunctions_def)
  have x1: "\<forall>s \<in> set added1. anchor_uuid s \<notin> set reserved"
    using n1 by (simp add: newJunctions_def)
  have h1: "endSubstituted reserved anchors (anchors @ ?added) (edge_start e) (edge_startPos e)
              (edge_start ?e')"
    using endSubstituted_weaken [OF e1 res(1), of anchors "[]" "anchors @ ?added"] by auto
  have h2: "endSubstituted reserved anchors (anchors @ ?added) (edge_end e) (edge_endPos e)
              (edge_end ?e')"
    using endSubstituted_weaken [OF e2 res(2), of anchors added1 "anchors @ ?added"] x1 by auto
  have head: "edgeSubstituted reserved anchors (anchors @ ?added) e ?e'"
    using h1 h2 by (simp add: edgeSubstituted_def)
  have tail: "list_all2 (edgeSubstituted reserved anchors (anchors @ ?added)) es (fst ?rec)"
  proof (rule list.rel_mono_strong [OF l3])
    fix x y
    assume xy: "x \<in> set es" "edgeSubstituted reserved ?A2 (?A2 @ added3) x y"
    have r: "edge_start x \<in> set reserved" "edge_end x \<in> set reserved"
      using rest xy(1) by (auto simp: endpoints_def)
    show "edgeSubstituted reserved anchors (anchors @ ?added) x y"
      by (rule edgeSubstituted_weaken [OF xy(2) r, of anchors "added1 @ added2"])
         (use x12 in auto)
  qed
  have wf: "\<forall>e' \<in> set (?e' # fst ?rec).
              \<forall>u \<in> set (endpoints e'). u \<in> anchor_uuid ` set (anchors @ ?added)"
  proof -
    have "edge_start ?e' \<in> anchor_uuid ` set (anchors @ ?added)" using in1 by auto
    moreover have "edge_end ?e' \<in> anchor_uuid ` set (anchors @ ?added)" using in2 by auto
    moreover have "\<forall>e' \<in> set (fst ?rec).
                     \<forall>u \<in> set (endpoints e'). u \<in> anchor_uuid ` set (anchors @ ?added)"
      using w3 by simp
    ultimately show ?thesis by (simp add: endpoints_def)
  qed
  show ?case
    unfolding final using new head tail wf by (intro exI [of _ ?added]) simp
qed


text \<open>
  An invariant of the traversal: a property of (work list, available anchors, available
  edges, segment) that every visit keeps holds, with an empty work list, of the result.
\<close>

lemma traverse_invariant:
  assumes "Inv todo anchors edges seg"
    and "\<And>a todo anchors edges seg.
           Inv (a # todo) anchors edges seg \<Longrightarrow>
           Inv (todo @ concat (map endpoints (adjacency edges a)))
             (filter (\<lambda>x. anchor_uuid x \<noteq> a) anchors)
             (filter (\<lambda>e. \<not> incident a e) edges)
             (seg\<lparr>seg_anchors := seg_anchors seg @ filter (\<lambda>x. anchor_uuid x = a) anchors,
                  seg_edges := seg_edges seg @ adjacency edges a\<rparr>)"
  shows "Inv [] (fst (snd (traverse todo anchors edges seg)))
           (snd (snd (traverse todo anchors edges seg)))
           (fst (traverse todo anchors edges seg))"
  using assms(1)
proof (induction todo anchors edges seg rule: traverse.induct)
  case (1 anchors edges seg)
  then show ?case by simp
next
  case (2 a todo anchors edges seg)
  have "Inv (todo @ concat (map endpoints (adjacency edges a)))
          (filter (\<lambda>x. anchor_uuid x \<noteq> a) anchors)
          (filter (\<lambda>e. \<not> incident a e) edges)
          (seg\<lparr>seg_anchors := seg_anchors seg @ filter (\<lambda>x. anchor_uuid x = a) anchors,
               seg_edges := seg_edges seg @ adjacency edges a\<rparr>)"
    using assms(2) "2.prems" by blast
  then show ?case using "2.IH" [OF refl refl] by (simp add: Let_def)
qed

lemma mset_filter_split: "mset (filter P xs) + mset (filter (\<lambda>x. \<not> P x) xs) = mset xs"
  by (induction xs) simp_all

lemma traverse_mset:
  "mset (seg_anchors (fst (traverse todo anchors edges seg)))
     + mset (fst (snd (traverse todo anchors edges seg)))
     = mset (seg_anchors seg) + mset anchors \<and>
   mset (seg_edges (fst (traverse todo anchors edges seg)))
     + mset (snd (snd (traverse todo anchors edges seg)))
     = mset (seg_edges seg) + mset edges \<and>
   seg_labels (fst (traverse todo anchors edges seg)) = seg_labels seg"
proof -
  define Inv where "Inv = (\<lambda>(t :: Uuid list) (A :: Anchor list) (E :: Edge list) (s :: Segment).
      mset (seg_anchors s) + mset A = mset (seg_anchors seg) + mset anchors \<and>
      mset (seg_edges s) + mset E = mset (seg_edges seg) + mset edges \<and>
      seg_labels s = seg_labels seg)"
  have "Inv todo anchors edges seg" by (simp add: Inv_def)
  moreover have "Inv (t @ concat (map endpoints (adjacency E a)))
             (filter (\<lambda>x. anchor_uuid x \<noteq> a) A) (filter (\<lambda>e. \<not> incident a e) E)
             (s\<lparr>seg_anchors := seg_anchors s @ filter (\<lambda>x. anchor_uuid x = a) A,
                seg_edges := seg_edges s @ adjacency E a\<rparr>)"
    if "Inv (a # t) A E s" for a t A E s
  proof -
    have "mset (filter (\<lambda>x. anchor_uuid x = a) A) + mset (filter (\<lambda>x. anchor_uuid x \<noteq> a) A)
            = mset A"
      using mset_filter_split [of "\<lambda>x. anchor_uuid x = a" A] by simp
    moreover
    have "mset (adjacency E a) + mset (filter (\<lambda>e. \<not> incident a e) E) = mset E"
      using mset_filter_split [of "incident a" E] by (simp add: adjacency_def)
    ultimately show ?thesis
      using that unfolding Inv_def
      by (simp add: add.assoc del: mset_filter)
  qed
  ultimately have "Inv [] (fst (snd (traverse todo anchors edges seg)))
           (snd (snd (traverse todo anchors edges seg))) (fst (traverse todo anchors edges seg))"
    by (rule traverse_invariant)
  then show ?thesis by (simp add: Inv_def)
qed


text \<open>Every endpoint of an available edge is an available anchor or waits on the work list.\<close>

lemma traverse_closed:
  assumes "\<forall>e \<in> set edges. \<forall>u \<in> set (endpoints e).
             u \<in> anchor_uuid ` set anchors \<or> u \<in> set todo"
  shows "\<forall>e \<in> set (snd (snd (traverse todo anchors edges seg))). \<forall>u \<in> set (endpoints e).
           u \<in> anchor_uuid ` set (fst (snd (traverse todo anchors edges seg)))"
proof -
  define Inv where "Inv = (\<lambda>(t :: Uuid list) (A :: Anchor list) (E :: Edge list) (s :: Segment).
      \<forall>e \<in> set E. \<forall>u \<in> set (endpoints e). u \<in> anchor_uuid ` set A \<or> u \<in> set t)"
  have "Inv todo anchors edges seg" using assms by (simp add: Inv_def)
  moreover have "Inv (t @ concat (map endpoints (adjacency E a)))
             (filter (\<lambda>x. anchor_uuid x \<noteq> a) A) (filter (\<lambda>e. \<not> incident a e) E)
             (s\<lparr>seg_anchors := seg_anchors s @ filter (\<lambda>x. anchor_uuid x = a) A,
                seg_edges := seg_edges s @ adjacency E a\<rparr>)"
    if inv: "Inv (a # t) A E s" for a t A E s
    unfolding Inv_def
  proof (intro ballI)
    fix e u
    assume e: "e \<in> set (filter (\<lambda>e. \<not> incident a e) E)" and u: "u \<in> set (endpoints e)"
    have "u \<noteq> a" using e u by (auto simp: incident_def endpoints_def)
    moreover have "u \<in> anchor_uuid ` set A \<or> u \<in> set (a # t)"
      using inv e u unfolding Inv_def by auto
    ultimately show "u \<in> anchor_uuid ` set (filter (\<lambda>x. anchor_uuid x \<noteq> a) A) \<or>
                     u \<in> set (t @ concat (map endpoints (adjacency E a)))"
      by auto
  qed
  ultimately have "Inv [] (fst (snd (traverse todo anchors edges seg)))
           (snd (snd (traverse todo anchors edges seg))) (fst (traverse todo anchors edges seg))"
    by (rule traverse_invariant)
  then show ?thesis by (simp add: Inv_def)
qed

text \<open>No available edge ends at an anchor of the segment.\<close>

lemma traverse_takes_links:
  assumes "\<forall>x \<in> set (seg_anchors seg). \<forall>e \<in> set edges. \<not> incident (anchor_uuid x) e"
  shows "\<forall>x \<in> set (seg_anchors (fst (traverse todo anchors edges seg))).
           \<forall>e \<in> set (snd (snd (traverse todo anchors edges seg))). \<not> incident (anchor_uuid x) e"
proof -
  define Inv where "Inv = (\<lambda>(t :: Uuid list) (A :: Anchor list) (E :: Edge list) (s :: Segment).
      \<forall>x \<in> set (seg_anchors s). \<forall>e \<in> set E. \<not> incident (anchor_uuid x) e)"
  have "Inv todo anchors edges seg" using assms by (simp add: Inv_def)
  moreover have "Inv (t @ concat (map endpoints (adjacency E a)))
             (filter (\<lambda>x. anchor_uuid x \<noteq> a) A) (filter (\<lambda>e. \<not> incident a e) E)
             (s\<lparr>seg_anchors := seg_anchors s @ filter (\<lambda>x. anchor_uuid x = a) A,
                seg_edges := seg_edges s @ adjacency E a\<rparr>)"
    if inv: "Inv (a # t) A E s" for a t A E s
    using inv unfolding Inv_def by auto
  ultimately have "Inv [] (fst (snd (traverse todo anchors edges seg)))
           (snd (snd (traverse todo anchors edges seg))) (fst (traverse todo anchors edges seg))"
    by (rule traverse_invariant)
  then show ?thesis by (simp add: Inv_def)
qed

text \<open>An available anchor at which an edge of the segment ends waits on the work list.\<close>

lemma traverse_takes_ends:
  assumes "\<forall>e \<in> set (seg_edges seg). \<forall>x \<in> set anchors.
             incident (anchor_uuid x) e \<longrightarrow> anchor_uuid x \<in> set todo"
  shows "\<forall>e \<in> set (seg_edges (fst (traverse todo anchors edges seg))).
           \<forall>x \<in> set (fst (snd (traverse todo anchors edges seg))). \<not> incident (anchor_uuid x) e"
proof -
  define Inv where "Inv = (\<lambda>(t :: Uuid list) (A :: Anchor list) (E :: Edge list) (s :: Segment).
      \<forall>e \<in> set (seg_edges s). \<forall>x \<in> set A. incident (anchor_uuid x) e \<longrightarrow> anchor_uuid x \<in> set t)"
  have "Inv todo anchors edges seg" using assms by (simp add: Inv_def)
  moreover have "Inv (t @ concat (map endpoints (adjacency E a)))
             (filter (\<lambda>x. anchor_uuid x \<noteq> a) A) (filter (\<lambda>e. \<not> incident a e) E)
             (s\<lparr>seg_anchors := seg_anchors s @ filter (\<lambda>x. anchor_uuid x = a) A,
                seg_edges := seg_edges s @ adjacency E a\<rparr>)"
    if inv: "Inv (a # t) A E s" for a t A E s
    unfolding Inv_def
  proof (intro ballI impI)
    fix e x
    assume e: "e \<in> set (seg_edges (s\<lparr>seg_anchors := seg_anchors s @ filter (\<lambda>x. anchor_uuid x = a) A,
                seg_edges := seg_edges s @ adjacency E a\<rparr>))"
      and x: "x \<in> set (filter (\<lambda>x. anchor_uuid x \<noteq> a) A)"
      and i: "incident (anchor_uuid x) e"
    have cases: "e \<in> set (seg_edges s) \<or> e \<in> set (adjacency E a)" using e by simp
    show "anchor_uuid x \<in> set (t @ concat (map endpoints (adjacency E a)))"
    proof (cases "e \<in> set (seg_edges s)")
      case True
      then have "anchor_uuid x \<in> set (a # t)" using inv x i unfolding Inv_def by auto
      then show ?thesis using x by simp
    next
      case False
      then have "e \<in> set (adjacency E a)" using cases by simp
      moreover have "anchor_uuid x \<in> set (endpoints e)"
        using i by (auto simp: incident_def endpoints_def)
      ultimately show ?thesis by auto
    qed
  qed
  ultimately have "Inv [] (fst (snd (traverse todo anchors edges seg)))
           (snd (snd (traverse todo anchors edges seg))) (fst (traverse todo anchors edges seg))"
    by (rule traverse_invariant)
  then show ?thesis by (simp add: Inv_def)
qed

text \<open>An edge of the segment ends at every anchor of the segment and of the work list.\<close>

lemma traverse_linked:
  assumes "\<forall>u \<in> set todo \<union> anchor_uuid ` set (seg_anchors seg).
             \<exists>e \<in> set (seg_edges seg). incident u e"
  shows "\<forall>x \<in> set (seg_anchors (fst (traverse todo anchors edges seg))).
           \<exists>e \<in> set (seg_edges (fst (traverse todo anchors edges seg))).
             incident (anchor_uuid x) e"
proof -
  define Inv where "Inv = (\<lambda>(t :: Uuid list) (A :: Anchor list) (E :: Edge list) (s :: Segment).
      \<forall>u \<in> set t \<union> anchor_uuid ` set (seg_anchors s). \<exists>e \<in> set (seg_edges s). incident u e)"
  have "Inv todo anchors edges seg" using assms by (simp add: Inv_def)
  moreover have "Inv (t @ concat (map endpoints (adjacency E a)))
             (filter (\<lambda>x. anchor_uuid x \<noteq> a) A) (filter (\<lambda>e. \<not> incident a e) E)
             (s\<lparr>seg_anchors := seg_anchors s @ filter (\<lambda>x. anchor_uuid x = a) A,
                seg_edges := seg_edges s @ adjacency E a\<rparr>)"
    if inv: "Inv (a # t) A E s" for a t A E s
    unfolding Inv_def
  proof (intro ballI)
    fix u
    assume u: "u \<in> set (t @ concat (map endpoints (adjacency E a))) \<union>
                 anchor_uuid ` set (seg_anchors
                   (s\<lparr>seg_anchors := seg_anchors s @ filter (\<lambda>x. anchor_uuid x = a) A,
                      seg_edges := seg_edges s @ adjacency E a\<rparr>))"
    have old: "\<exists>e \<in> set (seg_edges s). incident v e"
      if "v \<in> set (a # t) \<or> v \<in> anchor_uuid ` set (seg_anchors s)" for v
      using inv that by (auto simp: Inv_def)
    consider "u \<in> set t" | "u \<in> anchor_uuid ` set (seg_anchors s)" | "u = a"
      | "u \<in> set (concat (map endpoints (adjacency E a)))"
      using u by auto
    then have "\<exists>e \<in> set (seg_edges s) \<union> set (adjacency E a). incident u e"
    proof cases
      case 1
      then show ?thesis using old [of u] by auto
    next
      case 2
      then show ?thesis using old [of u] by auto
    next
      case 3
      then show ?thesis using old [of u] by auto
    next
      case 4
      then obtain e where "e \<in> set (adjacency E a)" "u \<in> set (endpoints e)" by auto
      then show ?thesis by (auto simp: incident_def endpoints_def)
    qed
    then show "\<exists>e \<in> set (seg_edges
                   (s\<lparr>seg_anchors := seg_anchors s @ filter (\<lambda>x. anchor_uuid x = a) A,
                      seg_edges := seg_edges s @ adjacency E a\<rparr>)). incident u e"
      by simp
  qed
  ultimately have "Inv [] (fst (snd (traverse todo anchors edges seg)))
           (snd (snd (traverse todo anchors edges seg))) (fst (traverse todo anchors edges seg))"
    by (rule traverse_invariant)
  then show ?thesis by (simp add: Inv_def)
qed

lemma traverse_distinct:
  assumes "distinct (map anchor_uuid anchors)"
  shows "distinct (map anchor_uuid (fst (snd (traverse todo anchors edges seg))))"
proof -
  define Inv where "Inv = (\<lambda>(t :: Uuid list) (A :: Anchor list) (E :: Edge list) (s :: Segment).
      distinct (map anchor_uuid A))"
  have "Inv todo anchors edges seg" using assms by (simp add: Inv_def)
  moreover have "Inv (t @ concat (map endpoints (adjacency E a)))
             (filter (\<lambda>x. anchor_uuid x \<noteq> a) A) (filter (\<lambda>e. \<not> incident a e) E)
             (s\<lparr>seg_anchors := seg_anchors s @ filter (\<lambda>x. anchor_uuid x = a) A,
                seg_edges := seg_edges s @ adjacency E a\<rparr>)"
    if inv: "Inv (a # t) A E s" for a t A E s
    using inv unfolding Inv_def by (simp add: distinct_map_filter)
  ultimately have "Inv [] (fst (snd (traverse todo anchors edges seg)))
           (snd (snd (traverse todo anchors edges seg))) (fst (traverse todo anchors edges seg))"
    by (rule traverse_invariant)
  then show ?thesis by (simp add: Inv_def)
qed


text \<open>The first component and what is left for the others.\<close>

definition firstComponent :: "Anchor \<Rightarrow> Anchor list \<Rightarrow> Edge list \<Rightarrow> Segment" where
  "firstComponent a anchors edges =
     fst (traverse [anchor_uuid a] (a # anchors) edges emptySegment)"

definition anchorsLeft :: "Anchor \<Rightarrow> Anchor list \<Rightarrow> Edge list \<Rightarrow> Anchor list" where
  "anchorsLeft a anchors edges =
     fst (snd (traverse [anchor_uuid a] (a # anchors) edges emptySegment))"

definition edgesLeft :: "Anchor \<Rightarrow> Anchor list \<Rightarrow> Edge list \<Rightarrow> Edge list" where
  "edgesLeft a anchors edges =
     snd (snd (traverse [anchor_uuid a] (a # anchors) edges emptySegment))"

lemma components_Cons:
  "components (a # anchors) edges
     = firstComponent a anchors edges
       # components (anchorsLeft a anchors edges) (edgesLeft a anchors edges)"
  by (simp add: case_prod_beta firstComponent_def anchorsLeft_def edgesLeft_def)

declare components.simps(2) [simp del]

lemma components_induct [case_names Nil Cons]:
  assumes "\<And>edges. P [] edges"
    and "\<And>a anchors edges.
           P (anchorsLeft a anchors edges) (edgesLeft a anchors edges) \<Longrightarrow> P (a # anchors) edges"
  shows "P anchors edges"
proof (induction anchors edges rule: components.induct)
  case (1 edges)
  then show ?case by (rule assms(1))
next
  case (2 a anchors edges)
  let ?t = "traverse [anchor_uuid a] (a # anchors) edges emptySegment"
  have "P (fst (snd ?t)) (snd (snd ?t))"
    by (rule "2.IH" [of ?t "fst ?t" "snd ?t"]) simp_all
  then show ?case by (intro assms(2)) (simp add: anchorsLeft_def edgesLeft_def)
qed

lemma first_mset:
  "mset (seg_anchors (firstComponent a anchors edges)) + mset (anchorsLeft a anchors edges)
     = mset (a # anchors) \<and>
   mset (seg_edges (firstComponent a anchors edges)) + mset (edgesLeft a anchors edges)
     = mset edges \<and>
   seg_labels (firstComponent a anchors edges) = []"
  using traverse_mset [of "[anchor_uuid a]" "a # anchors" edges emptySegment]
  by (simp add: firstComponent_def anchorsLeft_def edgesLeft_def emptySegment_def)

lemma first_sets:
  "set (seg_anchors (firstComponent a anchors edges)) \<union> set (anchorsLeft a anchors edges)
     = set (a # anchors) \<and>
   set (seg_edges (firstComponent a anchors edges)) \<union> set (edgesLeft a anchors edges)
     = set edges"
proof -
  have "set_mset (mset (seg_anchors (firstComponent a anchors edges))
          + mset (anchorsLeft a anchors edges)) = set_mset (mset (a # anchors))"
    using first_mset [of a anchors edges] by simp
  moreover
  have "set_mset (mset (seg_edges (firstComponent a anchors edges))
          + mset (edgesLeft a anchors edges)) = set_mset (mset edges)"
    using first_mset [of a anchors edges] by simp
  ultimately show ?thesis by simp
qed

text \<open>Every endpoint of an edge is an anchor.\<close>

definition closedGraph :: "Anchor list \<Rightarrow> Edge list \<Rightarrow> bool" where
  "closedGraph anchors edges =
     (\<forall>e \<in> set edges. \<forall>u \<in> set (endpoints e). u \<in> anchor_uuid ` set anchors)"

lemma first_closed:
  assumes "closedGraph (a # anchors) edges"
  shows "closedGraph (anchorsLeft a anchors edges) (edgesLeft a anchors edges)"
  unfolding closedGraph_def anchorsLeft_def edgesLeft_def
  by (rule traverse_closed) (use assms in \<open>simp add: closedGraph_def\<close>)

lemma first_takes_links:
  "\<forall>x \<in> set (seg_anchors (firstComponent a anchors edges)).
     \<forall>e \<in> set (edgesLeft a anchors edges). \<not> incident (anchor_uuid x) e"
  unfolding firstComponent_def edgesLeft_def
  by (rule traverse_takes_links) (simp add: emptySegment_def)

lemma first_takes_ends:
  "\<forall>e \<in> set (seg_edges (firstComponent a anchors edges)).
     \<forall>x \<in> set (anchorsLeft a anchors edges). \<not> incident (anchor_uuid x) e"
  unfolding firstComponent_def anchorsLeft_def
  by (rule traverse_takes_ends) (simp add: emptySegment_def)

lemma first_distinct:
  "distinct (map anchor_uuid (a # anchors)) \<Longrightarrow>
     distinct (map anchor_uuid (anchorsLeft a anchors edges))"
  unfolding anchorsLeft_def by (rule traverse_distinct)

lemma traverse_first:
  "traverse [u] anchors edges emptySegment
     = traverse (concat (map endpoints (adjacency edges u)))
         (filter (\<lambda>x. anchor_uuid x \<noteq> u) anchors)
         (filter (\<lambda>e. \<not> incident u e) edges)
         \<lparr>seg_anchors = filter (\<lambda>x. anchor_uuid x = u) anchors,
          seg_edges = adjacency edges u, seg_labels = []\<rparr>"
  by (simp add: Let_def emptySegment_def)

lemma filter_own_uuid:
  assumes "distinct (map anchor_uuid (a # anchors))"
  shows "filter (\<lambda>x. anchor_uuid x = anchor_uuid a) (a # anchors) = [a]"
proof -
  have notin: "anchor_uuid a \<notin> anchor_uuid ` set anchors" using assms by simp
  have "\<forall>x \<in> set anchors. anchor_uuid x \<noteq> anchor_uuid a"
  proof (intro ballI notI)
    fix x
    assume x: "x \<in> set anchors" and eq: "anchor_uuid x = anchor_uuid a"
    from x have "anchor_uuid x \<in> anchor_uuid ` set anchors" by (rule imageI)
    with eq notin show False by simp
  qed
  then have "filter (\<lambda>x. anchor_uuid x = anchor_uuid a) anchors = []"
    by (simp add: filter_empty_conv)
  then show ?thesis by simp
qed

lemma first_shape:
  assumes "distinct (map anchor_uuid (a # anchors))"
  shows "(adjacency edges (anchor_uuid a) = [] \<longrightarrow>
            firstComponent a anchors edges
              = \<lparr>seg_anchors = [a], seg_edges = [], seg_labels = []\<rparr>) \<and>
         (adjacency edges (anchor_uuid a) \<noteq> [] \<longrightarrow>
            (\<forall>x \<in> set (seg_anchors (firstComponent a anchors edges)).
               \<exists>e \<in> set (seg_edges (firstComponent a anchors edges)).
                 incident (anchor_uuid x) e))"
proof (intro conjI impI)
  assume none: "adjacency edges (anchor_uuid a) = []"
  show "firstComponent a anchors edges = \<lparr>seg_anchors = [a], seg_edges = [], seg_labels = []\<rparr>"
    unfolding firstComponent_def traverse_first
    using none filter_own_uuid [OF assms] by simp
next
  assume some: "adjacency edges (anchor_uuid a) \<noteq> []"
  let ?links = "adjacency edges (anchor_uuid a)"
  let ?seg = "\<lparr>seg_anchors = filter (\<lambda>x. anchor_uuid x = anchor_uuid a) (a # anchors),
              seg_edges = ?links, seg_labels = []\<rparr>"
  have start: "\<forall>u \<in> set (concat (map endpoints ?links)) \<union> anchor_uuid ` set (seg_anchors ?seg).
                 \<exists>e \<in> set (seg_edges ?seg). incident u e"
  proof
    fix u
    assume u: "u \<in> set (concat (map endpoints ?links)) \<union> anchor_uuid ` set (seg_anchors ?seg)"
    show "\<exists>e \<in> set (seg_edges ?seg). incident u e"
    proof (cases "u \<in> set (concat (map endpoints ?links))")
      case True
      then obtain e where "e \<in> set ?links" "u \<in> set (endpoints e)" by auto
      then show ?thesis by (auto simp: incident_def endpoints_def)
    next
      case False
      then have "u = anchor_uuid a" using u by auto
      moreover obtain e where e: "e \<in> set ?links" using some by (cases ?links) auto
      moreover have "incident (anchor_uuid a) e" using e by (simp add: adjacency_def)
      ultimately show ?thesis by auto
    qed
  qed
  show "\<forall>x \<in> set (seg_anchors (firstComponent a anchors edges)).
          \<exists>e \<in> set (seg_edges (firstComponent a anchors edges)). incident (anchor_uuid x) e"
    unfolding firstComponent_def traverse_first
    by (rule traverse_linked [OF start])
qed


text \<open>The components, taken together.\<close>

lemma components_anchors:
  "mset (concat (map seg_anchors (components anchors edges))) = mset anchors"
proof (induction anchors edges rule: components_induct)
  case (Nil edges)
  then show ?case by simp
next
  case (Cons a anchors edges)
  then show ?case
    using first_mset [of a anchors edges] by (simp add: components_Cons)
qed

lemma components_anchors_subset:
  assumes "seg \<in> set (components anchors edges)"
  shows "set (seg_anchors seg) \<subseteq> set anchors"
proof -
  have "set (seg_anchors seg) \<subseteq> set (concat (map seg_anchors (components anchors edges)))"
    using assms by auto
  also have "\<dots> = set_mset (mset (concat (map seg_anchors (components anchors edges))))"
    by simp
  also have "\<dots> = set anchors" unfolding components_anchors by simp
  finally show ?thesis .
qed

lemma components_edges:
  assumes "closedGraph anchors edges"
  shows "mset (concat (map seg_edges (components anchors edges))) = mset edges"
  using assms
proof (induction anchors edges rule: components_induct)
  case (Nil edges)
  have "edges = []"
  proof (rule ccontr)
    assume "edges \<noteq> []"
    then obtain e where "e \<in> set edges" by (cases edges) auto
    then have "edge_start e \<in> anchor_uuid ` set []"
      using Nil unfolding closedGraph_def endpoints_def by auto
    then show False by simp
  qed
  then show ?case by simp
next
  case (Cons a anchors edges)
  have "closedGraph (anchorsLeft a anchors edges) (edgesLeft a anchors edges)"
    using Cons.prems by (rule first_closed)
  then show ?case
    using Cons.IH first_mset [of a anchors edges] by (simp add: components_Cons)
qed

lemma components_labels:
  "\<forall>seg \<in> set (components anchors edges). seg_labels seg = []"
proof (induction anchors edges rule: components_induct)
  case (Nil edges)
  then show ?case by simp
next
  case (Cons a anchors edges)
  then show ?case using first_mset [of a anchors edges] by (simp add: components_Cons)
qed

text \<open>All edges that end at an anchor of a component are edges of that component.\<close>

lemma components_links:
  "\<forall>seg \<in> set (components anchors edges). \<forall>x \<in> set (seg_anchors seg).
     set (adjacency edges (anchor_uuid x)) \<subseteq> set (seg_edges seg)"
proof (induction anchors edges rule: components_induct)
  case (Nil edges)
  then show ?case by simp
next
  case (Cons a anchors edges)
  let ?first = "firstComponent a anchors edges"
  let ?A = "anchorsLeft a anchors edges"
  let ?E = "edgesLeft a anchors edges"
  have edges: "set edges = set (seg_edges ?first) \<union> set ?E"
    using first_sets [of a anchors edges] by simp
  have first: "set (adjacency edges (anchor_uuid x)) \<subseteq> set (seg_edges ?first)"
    if "x \<in> set (seg_anchors ?first)" for x
  proof
    fix e
    assume "e \<in> set (adjacency edges (anchor_uuid x))"
    then have e: "e \<in> set edges" and i: "incident (anchor_uuid x) e"
      by (simp_all add: adjacency_def)
    have "e \<notin> set ?E" using first_takes_links [of a anchors edges] that i by auto
    then show "e \<in> set (seg_edges ?first)" using e edges by simp
  qed
  have later: "set (adjacency edges (anchor_uuid x)) \<subseteq> set (seg_edges seg)"
    if seg: "seg \<in> set (components ?A ?E)" and x: "x \<in> set (seg_anchors seg)" for seg x
  proof
    fix e
    assume "e \<in> set (adjacency edges (anchor_uuid x))"
    then have e: "e \<in> set edges" and i: "incident (anchor_uuid x) e"
      by (simp_all add: adjacency_def)
    have "x \<in> set ?A" using components_anchors_subset [OF seg] x by auto
    then have "e \<notin> set (seg_edges ?first)"
      using first_takes_ends [of a anchors edges] i by auto
    then have "e \<in> set (adjacency ?E (anchor_uuid x))"
      using e edges i by (simp add: adjacency_def)
    then show "e \<in> set (seg_edges seg)" using Cons.IH seg x by auto
  qed
  show ?case
    unfolding components_Cons using first later by auto
qed

text \<open>A component is one anchor without an edge, or an edge ends at each of its anchors.\<close>

lemma components_shape:
  assumes "distinct (map anchor_uuid anchors)"
  shows "\<forall>seg \<in> set (components anchors edges).
           (\<exists>a \<in> set anchors. adjacency edges (anchor_uuid a) = [] \<and>
              seg = \<lparr>seg_anchors = [a], seg_edges = [], seg_labels = []\<rparr>) \<or>
           (\<forall>x \<in> set (seg_anchors seg). \<exists>e \<in> set (seg_edges seg). incident (anchor_uuid x) e)"
  using assms
proof (induction anchors edges rule: components_induct)
  case (Nil edges)
  then show ?case by simp
next
  case (Cons a anchors edges)
  let ?first = "firstComponent a anchors edges"
  let ?A = "anchorsLeft a anchors edges"
  let ?E = "edgesLeft a anchors edges"
  have sub: "set ?A \<subseteq> set (a # anchors)" and edges: "set ?E \<subseteq> set edges"
    using first_sets [of a anchors edges] by auto
  have first: "(\<exists>b \<in> set (a # anchors). adjacency edges (anchor_uuid b) = [] \<and>
                  ?first = \<lparr>seg_anchors = [b], seg_edges = [], seg_labels = []\<rparr>) \<or>
               (\<forall>x \<in> set (seg_anchors ?first). \<exists>e \<in> set (seg_edges ?first).
                  incident (anchor_uuid x) e)"
    using first_shape [OF Cons.prems, of edges] by (cases "adjacency edges (anchor_uuid a) = []") auto
  have later: "(\<exists>b \<in> set (a # anchors). adjacency edges (anchor_uuid b) = [] \<and>
                  seg = \<lparr>seg_anchors = [b], seg_edges = [], seg_labels = []\<rparr>) \<or>
               (\<forall>x \<in> set (seg_anchors seg). \<exists>e \<in> set (seg_edges seg). incident (anchor_uuid x) e)"
    if seg: "seg \<in> set (components ?A ?E)" for seg
  proof -
    have ih: "(\<exists>b \<in> set ?A. adjacency ?E (anchor_uuid b) = [] \<and>
                 seg = \<lparr>seg_anchors = [b], seg_edges = [], seg_labels = []\<rparr>) \<or>
              (\<forall>x \<in> set (seg_anchors seg). \<exists>e \<in> set (seg_edges seg). incident (anchor_uuid x) e)"
      using Cons.IH [OF first_distinct [OF Cons.prems]] seg by blast
    show ?thesis
    proof (cases "\<forall>x \<in> set (seg_anchors seg). \<exists>e \<in> set (seg_edges seg).
                    incident (anchor_uuid x) e")
      case True
      then show ?thesis by simp
    next
      case False
      then obtain b where b: "b \<in> set ?A" "adjacency ?E (anchor_uuid b) = []"
        "seg = \<lparr>seg_anchors = [b], seg_edges = [], seg_labels = []\<rparr>"
        using ih by blast
      have "seg \<in> set (components (a # anchors) edges)"
        using seg by (simp add: components_Cons)
      moreover have "b \<in> set (seg_anchors seg)" using b(3) by simp
      ultimately have "set (adjacency edges (anchor_uuid b)) \<subseteq> set (seg_edges seg)"
        using components_links [of "a # anchors" edges] by blast
      then have "adjacency edges (anchor_uuid b) = []" using b(3) by simp
      then show ?thesis using b sub by blast
    qed
  qed
  show ?case
    unfolding components_Cons using first later by auto
qed


text \<open>Lists of lists without a repeated element.\<close>

lemma distinct_concat_nth:
  assumes "distinct (concat xss)" and "i < j" and "j < length xss"
  shows "set (xss ! i) \<inter> set (xss ! j) = {}"
  using assms
proof (induction xss arbitrary: i j)
  case Nil
  then show ?case by simp
next
  case (Cons xs xss)
  obtain j' where j: "j = Suc j'" using Cons.prems(2) by (cases j) auto
  show ?case
  proof (cases i)
    case 0
    have "xss ! j' \<in> set xss" using Cons.prems(3) j by simp
    then have "set (xss ! j') \<subseteq> set (concat xss)" by auto
    then show ?thesis using Cons.prems(1) 0 j by auto
  next
    case (Suc i')
    then show ?thesis using Cons.IH [of i' j'] Cons.prems j by simp
  qed
qed

lemma distinct_concat_filter:
  "distinct (concat (map f xs)) \<Longrightarrow> distinct (concat (map f (filter P xs)))"
  by (induction xs) auto

lemma distinct_concat_same:
  assumes "distinct (concat (map f xs))" and "x \<in> set xs" and "y \<in> set xs"
    and "e \<in> set (f x)" and "e \<in> set (f y)"
  shows "x = y"
proof -
  obtain i where i: "i < length xs" "xs ! i = x" using assms(2) by (auto simp: in_set_conv_nth)
  obtain j where j: "j < length xs" "xs ! j = y" using assms(3) by (auto simp: in_set_conv_nth)
  have "i = j"
  proof (rule ccontr)
    assume ne: "i \<noteq> j"
    have "set (map f xs ! i) \<inter> set (map f xs ! j) = {}"
    proof (cases "i < j")
      case True
      then show ?thesis using distinct_concat_nth [OF assms(1), of i j] j by simp
    next
      case False
      then have "j < i" using ne by simp
      then show ?thesis using distinct_concat_nth [OF assms(1), of j i] i by auto
    qed
    then show False using assms(4,5) i j by auto
  qed
  then show ?thesis using i j by simp
qed

text \<open>Step 5 changes the labels of the segments only.\<close>

lemma assignLabels_anchors: "map seg_anchors (assignLabels labels segs) = map seg_anchors segs"
proof -
  have "map seg_anchors (assignLabels labels segs) = map (seg_anchors \<circ> snd) (enumerate 0 segs)"
    by (simp add: assignLabels_def case_prod_beta comp_def)
  also have "\<dots> = map seg_anchors (map snd (enumerate 0 segs))" by (simp del: map_snd_enumerate)
  also have "\<dots> = map seg_anchors segs" by simp
  finally show ?thesis .
qed

lemma assignLabels_edges: "map seg_edges (assignLabels labels segs) = map seg_edges segs"
proof -
  have "map seg_edges (assignLabels labels segs) = map (seg_edges \<circ> snd) (enumerate 0 segs)"
    by (simp add: assignLabels_def case_prod_beta comp_def)
  also have "\<dots> = map seg_edges (map snd (enumerate 0 segs))" by (simp del: map_snd_enumerate)
  also have "\<dots> = map seg_edges segs" by simp
  finally show ?thesis .
qed

lemma assignLabels_member:
  assumes "seg \<in> set (assignLabels labels segs)"
  shows "\<exists>seg0 \<in> set segs. seg_anchors seg = seg_anchors seg0 \<and> seg_edges seg = seg_edges seg0"
proof -
  obtain p where p: "p \<in> set (enumerate 0 segs)"
    and seg: "seg = (snd p)\<lparr>seg_labels := filter (\<lambda>l. nearestSegment l segs = fst p) labels\<rparr>"
    using assms by (auto simp: assignLabels_def case_prod_beta)
  have "snd p \<in> set (map snd (enumerate 0 segs))" using p by (simp del: map_snd_enumerate)
  then have "snd p \<in> set segs" by simp
  then show ?thesis using seg by auto
qed

lemma assignLabels_member':
  assumes "seg0 \<in> set segs"
  shows "\<exists>seg \<in> set (assignLabels labels segs).
           seg_anchors seg = seg_anchors seg0 \<and> seg_edges seg = seg_edges seg0"
proof -
  have "seg0 \<in> set (map snd (enumerate 0 segs))" using assms by simp
  then obtain p where p: "p \<in> set (enumerate 0 segs)" "snd p = seg0"
    by (auto simp del: map_snd_enumerate)
  let ?seg = "(snd p)\<lparr>seg_labels := filter (\<lambda>l. nearestSegment l segs = fst p) labels\<rparr>"
  have "?seg \<in> set (assignLabels labels segs)"
    using p(1) by (auto simp: assignLabels_def case_prod_beta intro!: image_eqI [of _ _ p])
  then show ?thesis using p(2) by (intro bexI [of _ ?seg]) simp_all
qed

text \<open>Related lists: each element has its partner.\<close>

lemma list_all2_left:
  "list_all2 R xs ys \<Longrightarrow> x \<in> set xs \<Longrightarrow> \<exists>y \<in> set ys. R x y"
  by (induction rule: list_all2_induct) auto

lemma list_all2_right:
  "list_all2 R xs ys \<Longrightarrow> y \<in> set ys \<Longrightarrow> \<exists>x \<in> set xs. R x y"
  by (induction rule: list_all2_induct) auto

lemma list_all2_map_eq:
  "list_all2 R xs ys \<Longrightarrow> (\<And>x y. R x y \<Longrightarrow> f y = f x) \<Longrightarrow> map f ys = map f xs"
  by (induction rule: list_all2_induct) auto


text \<open>Components of a closed graph whose anchors have distinct identities.\<close>

lemma components_edges_subset:
  assumes "closedGraph anchors edges" and "seg \<in> set (components anchors edges)"
  shows "set (seg_edges seg) \<subseteq> set edges"
proof -
  have "set (seg_edges seg) \<subseteq> set (concat (map seg_edges (components anchors edges)))"
    using assms(2) by auto
  also have "\<dots> = set_mset (mset (concat (map seg_edges (components anchors edges))))"
    by simp
  also have "\<dots> = set edges" unfolding components_edges [OF assms(1)] by simp
  finally show ?thesis .
qed

lemma components_cover:
  assumes "a \<in> set anchors"
  shows "\<exists>seg \<in> set (components anchors edges). a \<in> set (seg_anchors seg)"
proof -
  have "set (concat (map seg_anchors (components anchors edges)))
          = set_mset (mset (concat (map seg_anchors (components anchors edges))))"
    by simp
  also have "\<dots> = set anchors" unfolding components_anchors by simp
  finally have "a \<in> set (concat (map seg_anchors (components anchors edges)))"
    using assms by simp
  then show ?thesis by auto
qed

lemma components_edges_cover:
  assumes "closedGraph anchors edges" and "e \<in> set edges"
  shows "\<exists>seg \<in> set (components anchors edges). e \<in> set (seg_edges seg)"
proof -
  have "set (concat (map seg_edges (components anchors edges)))
          = set_mset (mset (concat (map seg_edges (components anchors edges))))"
    by simp
  also have "\<dots> = set edges" unfolding components_edges [OF assms(1)] by simp
  finally have "e \<in> set (concat (map seg_edges (components anchors edges)))"
    using assms(2) by simp
  then show ?thesis by auto
qed

lemma components_anchors_distinct:
  assumes "distinct (map anchor_uuid anchors)"
  shows "distinct (concat (map seg_anchors (components anchors edges)))"
proof -
  have "distinct anchors" using assms by (simp add: distinct_map)
  then show ?thesis
    using mset_eq_imp_distinct_iff [OF components_anchors [of anchors edges]] by simp
qed

lemma components_edges_distinct:
  assumes "closedGraph anchors edges" and "distinct edges"
  shows "distinct (concat (map seg_edges (components anchors edges)))"
  using mset_eq_imp_distinct_iff [OF components_edges [OF assms(1)]] assms(2) by simp

lemma adjacency_member: "e \<in> set (adjacency edges u) \<longleftrightarrow> e \<in> set edges \<and> incident u e"
  by (simp add: adjacency_def)

lemma adjacency_empty: "adjacency edges u = [] \<longleftrightarrow> (\<forall>e \<in> set edges. \<not> incident u e)"
  by (simp add: adjacency_def filter_empty_conv)

lemma components_isolated:
  assumes "distinct (map anchor_uuid anchors)" and "closedGraph anchors edges"
    and "a \<in> set anchors" and "adjacency edges (anchor_uuid a) = []"
  shows "\<lparr>seg_anchors = [a], seg_edges = [], seg_labels = []\<rparr> \<in> set (components anchors edges)"
proof -
  obtain seg where seg: "seg \<in> set (components anchors edges)" and a: "a \<in> set (seg_anchors seg)"
    using components_cover [OF assms(3)] by auto
  have shape: "(\<exists>b \<in> set anchors. adjacency edges (anchor_uuid b) = [] \<and>
                   seg = \<lparr>seg_anchors = [b], seg_edges = [], seg_labels = []\<rparr>) \<or>
               (\<forall>x \<in> set (seg_anchors seg). \<exists>e \<in> set (seg_edges seg). incident (anchor_uuid x) e)"
    using components_shape [OF assms(1), of edges] seg by (rule bspec)
  have "\<not> (\<forall>x \<in> set (seg_anchors seg). \<exists>e \<in> set (seg_edges seg). incident (anchor_uuid x) e)"
  proof
    assume "\<forall>x \<in> set (seg_anchors seg). \<exists>e \<in> set (seg_edges seg). incident (anchor_uuid x) e"
    then obtain e where e: "e \<in> set (seg_edges seg)" "incident (anchor_uuid a) e"
      using a by auto
    have "e \<in> set edges" using components_edges_subset [OF assms(2) seg] e(1) by auto
    then show False using assms(4) e(2) by (simp add: adjacency_empty)
  qed
  then obtain b where "seg = \<lparr>seg_anchors = [b], seg_edges = [], seg_labels = []\<rparr>"
    using shape by auto
  then show ?thesis using seg a by auto
qed

lemma components_kept:
  assumes "distinct (map anchor_uuid anchors)" and "closedGraph anchors edges"
  shows "(\<exists>seg \<in> set (filter (\<lambda>seg. \<not> onlyLooseJunctions seg) (components anchors edges)).
            x \<in> set (seg_anchors seg))
         \<longleftrightarrow> x \<in> set anchors \<and>
             \<not> (anchor_kind x = JunctionAnchor \<and> adjacency edges (anchor_uuid x) = [])"
proof
  assume "\<exists>seg \<in> set (filter (\<lambda>seg. \<not> onlyLooseJunctions seg) (components anchors edges)).
            x \<in> set (seg_anchors seg)"
  then obtain seg where seg: "seg \<in> set (components anchors edges)"
    and kept: "\<not> onlyLooseJunctions seg" and x: "x \<in> set (seg_anchors seg)" by auto
  have mem: "x \<in> set anchors" using components_anchors_subset [OF seg] x by auto
  have "\<not> (anchor_kind x = JunctionAnchor \<and> adjacency edges (anchor_uuid x) = [])"
  proof
    assume loose: "anchor_kind x = JunctionAnchor \<and> adjacency edges (anchor_uuid x) = []"
    let ?single = "\<lparr>seg_anchors = [x], seg_edges = [], seg_labels = []\<rparr>"
    have single: "?single \<in> set (components anchors edges)"
      using components_isolated [OF assms mem] loose by simp
    have "seg = ?single"
      by (rule distinct_concat_same [OF components_anchors_distinct [OF assms(1), of edges]
            seg single x]) simp
    then show False using kept loose by (simp add: onlyLooseJunctions_def)
  qed
  then show "x \<in> set anchors \<and>
      \<not> (anchor_kind x = JunctionAnchor \<and> adjacency edges (anchor_uuid x) = [])"
    using mem by simp
next
  assume r: "x \<in> set anchors \<and>
      \<not> (anchor_kind x = JunctionAnchor \<and> adjacency edges (anchor_uuid x) = [])"
  then obtain seg where seg: "seg \<in> set (components anchors edges)"
    and x: "x \<in> set (seg_anchors seg)"
    using components_cover [of x anchors edges] by auto
  have "\<not> onlyLooseJunctions seg"
  proof
    assume loose: "onlyLooseJunctions seg"
    then have kind: "anchor_kind x = JunctionAnchor"
      using x by (auto simp: onlyLooseJunctions_def list_all_iff)
    have "set (adjacency edges (anchor_uuid x)) \<subseteq> set (seg_edges seg)"
      using components_links [of anchors edges] seg x by auto
    then have "adjacency edges (anchor_uuid x) = []"
      using loose by (simp add: onlyLooseJunctions_def)
    then show False using r kind by simp
  qed
  then show "\<exists>seg \<in> set (filter (\<lambda>seg. \<not> onlyLooseJunctions seg) (components anchors edges)).
      x \<in> set (seg_anchors seg)"
    using seg x by auto
qed

lemma components_edge_ends:
  assumes "closedGraph anchors edges" and "distinct edges"
    and "seg \<in> set (components anchors edges)" and "e \<in> set (seg_edges seg)"
    and "u \<in> set (endpoints e)"
  shows "u \<in> anchor_uuid ` set (seg_anchors seg)"
proof -
  have e: "e \<in> set edges" using components_edges_subset [OF assms(1,3)] assms(4) by auto
  then have "u \<in> anchor_uuid ` set anchors"
    using assms(1,5) unfolding closedGraph_def by simp
  then obtain x where x: "x \<in> set anchors" "u = anchor_uuid x" by (rule imageE)
  obtain seg2 where seg2: "seg2 \<in> set (components anchors edges)"
    and x2: "x \<in> set (seg_anchors seg2)"
    using components_cover [OF x(1)] by auto
  have "incident u e" using assms(5) by (auto simp: endpoints_def incident_def)
  then have "e \<in> set (adjacency edges (anchor_uuid x))"
    using e x(2) by (simp add: adjacency_member)
  moreover have "set (adjacency edges (anchor_uuid x)) \<subseteq> set (seg_edges seg2)"
    using components_links [of anchors edges] seg2 x2 by auto
  ultimately have e2: "e \<in> set (seg_edges seg2)" by auto
  have "seg = seg2"
    by (rule distinct_concat_same [OF components_edges_distinct [OF assms(1,2)]
          assms(3) seg2 assms(4) e2])
  then show ?thesis using x2 x(2) by simp
qed

lemma components_junction_linked:
  assumes "distinct (map anchor_uuid anchors)"
    and "seg \<in> set (components anchors edges)" and "\<not> onlyLooseJunctions seg"
    and "x \<in> set (seg_anchors seg)" and "anchor_kind x = JunctionAnchor"
  shows "adjacency (seg_edges seg) (anchor_uuid x) \<noteq> []"
proof -
  have shape: "(\<exists>b \<in> set anchors. adjacency edges (anchor_uuid b) = [] \<and>
                   seg = \<lparr>seg_anchors = [b], seg_edges = [], seg_labels = []\<rparr>) \<or>
               (\<forall>x \<in> set (seg_anchors seg). \<exists>e \<in> set (seg_edges seg). incident (anchor_uuid x) e)"
    using components_shape [OF assms(1), of edges] assms(2) by (rule bspec)
  have "\<not> (\<exists>b. seg = \<lparr>seg_anchors = [b], seg_edges = [], seg_labels = []\<rparr>)"
  proof
    assume "\<exists>b. seg = \<lparr>seg_anchors = [b], seg_edges = [], seg_labels = []\<rparr>"
    then obtain b where b: "seg = \<lparr>seg_anchors = [b], seg_edges = [], seg_labels = []\<rparr>" ..
    then have "b = x" using assms(4) by simp
    then show False using assms(3,5) b by (simp add: onlyLooseJunctions_def)
  qed
  then have "\<forall>x \<in> set (seg_anchors seg). \<exists>e \<in> set (seg_edges seg). incident (anchor_uuid x) e"
    using shape by auto
  then obtain e where "e \<in> set (seg_edges seg)" "incident (anchor_uuid x) e"
    using assms(4) by auto
  then show ?thesis by (auto simp: adjacency_empty)
qed


text \<open>Step 2: what the completion of the anchors guarantees.\<close>

definition completedAnchors :: "Anchor list \<Rightarrow> Edge list \<Rightarrow> Anchor list" where
  "completedAnchors anchors edges
     = snd (insertMissingAnchors (reservedUuids edges) edges anchors)"

lemma step2_spec:
  "\<exists>added. completedAnchors anchors edges = anchors @ added \<and>
     newJunctions (reservedUuids edges) anchors added \<and>
     list_all2 (edgeSubstituted (reservedUuids edges) anchors (anchors @ added)) edges
       (substitutedEdges anchors edges) \<and>
     (\<forall>e' \<in> set (substitutedEdges anchors edges).
        \<forall>u \<in> set (endpoints e'). u \<in> anchor_uuid ` set (anchors @ added))"
  unfolding completedAnchors_def substitutedEdges_def
  by (rule insertMissingAnchors_spec) (simp add: reservedUuids_def)

lemma completedAnchors_eq:
  "completedAnchors anchors edges = anchors @ synthesizedAnchors anchors edges"
proof -
  obtain added where "completedAnchors anchors edges = anchors @ added"
    using step2_spec [of anchors edges] by auto
  then show ?thesis by (simp add: synthesizedAnchors_def completedAnchors_def)
qed

lemma synthesized_new:
  "newJunctions (reservedUuids edges) anchors (synthesizedAnchors anchors edges)"
proof -
  obtain added where a: "completedAnchors anchors edges = anchors @ added"
    and n: "newJunctions (reservedUuids edges) anchors added"
    using step2_spec [of anchors edges] by auto
  have "synthesizedAnchors anchors edges = added"
    using a by (simp add: synthesizedAnchors_def completedAnchors_def)
  then show ?thesis using n by simp
qed

lemma substituted_rel:
  "list_all2 (edgeSubstituted (reservedUuids edges) anchors (completedAnchors anchors edges))
     edges (substitutedEdges anchors edges)"
proof -
  obtain added where a: "completedAnchors anchors edges = anchors @ added"
    and r: "list_all2 (edgeSubstituted (reservedUuids edges) anchors (anchors @ added)) edges
              (substitutedEdges anchors edges)"
    using step2_spec [of anchors edges] by auto
  show ?thesis using r unfolding a .
qed

lemma completed_closed:
  "closedGraph (completedAnchors anchors edges) (substitutedEdges anchors edges)"
proof -
  obtain added where a: "completedAnchors anchors edges = anchors @ added"
    and c: "\<forall>e' \<in> set (substitutedEdges anchors edges).
              \<forall>u \<in> set (endpoints e'). u \<in> anchor_uuid ` set (anchors @ added)"
    using step2_spec [of anchors edges] by auto
  show ?thesis using c unfolding a closedGraph_def .
qed

lemma synthesized_fresh:
  assumes "s \<in> set (synthesizedAnchors anchors edges)"
  shows "anchor_kind s = JunctionAnchor" and "anchor_uuid s \<notin> anchor_uuid ` set anchors"
proof -
  have "\<forall>s \<in> set (synthesizedAnchors anchors edges).
          anchor_kind s = JunctionAnchor \<and> anchor_uuid s \<notin> set (reservedUuids edges) \<and>
          anchor_uuid s \<notin> anchor_uuid ` set anchors"
    using synthesized_new [of edges anchors] by (simp add: newJunctions_def)
  then have "anchor_kind s = JunctionAnchor \<and> anchor_uuid s \<notin> set (reservedUuids edges) \<and>
          anchor_uuid s \<notin> anchor_uuid ` set anchors"
    using assms by (rule bspec)
  then show "anchor_kind s = JunctionAnchor" and "anchor_uuid s \<notin> anchor_uuid ` set anchors"
    by simp_all
qed

lemma synthesized_apart: "set anchors \<inter> set (synthesizedAnchors anchors edges) = {}"
proof (rule equals0I)
  fix x
  assume "x \<in> set anchors \<inter> set (synthesizedAnchors anchors edges)"
  then have x: "x \<in> set anchors" and s: "x \<in> set (synthesizedAnchors anchors edges)"
    by simp_all
  have "anchor_uuid x \<in> anchor_uuid ` set anchors" using x by (rule imageI)
  then show False using synthesized_fresh(2) [OF s] by simp
qed

lemma completed_distinct:
  assumes "distinct (map anchor_uuid anchors)"
  shows "distinct (map anchor_uuid (completedAnchors anchors edges))"
proof -
  let ?S = "synthesizedAnchors anchors edges"
  have d: "distinct (map anchor_uuid ?S)"
    using synthesized_new [of edges anchors] by (simp add: newJunctions_def)
  have "anchor_uuid ` set anchors \<inter> anchor_uuid ` set ?S = {}"
  proof (rule equals0I)
    fix u
    assume "u \<in> anchor_uuid ` set anchors \<inter> anchor_uuid ` set ?S"
    then have u1: "u \<in> anchor_uuid ` set anchors" and u2: "u \<in> anchor_uuid ` set ?S"
      by simp_all
    from u2 obtain s where s: "s \<in> set ?S" "u = anchor_uuid s" by (rule imageE)
    show False using synthesized_fresh(2) [OF s(1)] u1 s(2) by simp
  qed
  then show ?thesis using assms d by (simp add: completedAnchors_eq)
qed

lemma substituted_uuids:
  "map edge_uuid (substitutedEdges anchors edges) = map edge_uuid edges"
  by (rule list_all2_map_eq [OF substituted_rel]) (simp add: edgeSubstituted_def)

lemma substituted_distinct:
  assumes "distinct (map edge_uuid edges)"
  shows "distinct (substitutedEdges anchors edges)"
proof -
  have "distinct (map edge_uuid (substitutedEdges anchors edges))"
    using assms by (simp add: substituted_uuids)
  then show ?thesis by (simp add: distinct_map)
qed

lemma incident_substituted:
  assumes "edgeSubstituted reserved before after e e'" and "u \<in> anchor_uuid ` set before"
  shows "incident u e' = incident u e"
proof -
  have ends: "new = u \<longleftrightarrow> old = u" if "endSubstituted reserved before after old position new"
    for old position new
  proof (cases "old \<in> anchor_uuid ` set before")
    case True
    then show ?thesis using that by (simp add: endSubstituted_def)
  next
    case False
    then have "new \<notin> anchor_uuid ` set before" using that by (simp add: endSubstituted_def)
    then have "new \<noteq> u" and "old \<noteq> u" using assms(2) False by fastforce+
    then show ?thesis by simp
  qed
  have "edge_start e' = u \<longleftrightarrow> edge_start e = u"
    by (rule ends [of "edge_start e" "edge_startPos e"])
      (use assms(1) in \<open>simp add: edgeSubstituted_def\<close>)
  moreover have "edge_end e' = u \<longleftrightarrow> edge_end e = u"
    by (rule ends [of "edge_end e" "edge_endPos e"])
      (use assms(1) in \<open>simp add: edgeSubstituted_def\<close>)
  ultimately show ?thesis by (simp add: incident_def)
qed

lemma adjacency_substituted:
  assumes "u \<in> anchor_uuid ` set anchors"
  shows "adjacency (substitutedEdges anchors edges) u = [] \<longleftrightarrow> adjacency edges u = []"
proof
  assume l: "adjacency (substitutedEdges anchors edges) u = []"
  have "\<forall>e \<in> set edges. \<not> incident u e"
  proof
    fix e
    assume "e \<in> set edges"
    then obtain e' where e': "e' \<in> set (substitutedEdges anchors edges)"
      and r: "edgeSubstituted (reservedUuids edges) anchors (completedAnchors anchors edges) e e'"
      using list_all2_left [OF substituted_rel] by blast
    have "\<not> incident u e'" using l e' by (simp add: adjacency_empty)
    then show "\<not> incident u e" using incident_substituted [OF r assms] by simp
  qed
  then show "adjacency edges u = []" by (simp add: adjacency_empty)
next
  assume l: "adjacency edges u = []"
  have "\<forall>e' \<in> set (substitutedEdges anchors edges). \<not> incident u e'"
  proof
    fix e'
    assume "e' \<in> set (substitutedEdges anchors edges)"
    then obtain e where e: "e \<in> set edges"
      and r: "edgeSubstituted (reservedUuids edges) anchors (completedAnchors anchors edges) e e'"
      using list_all2_right [OF substituted_rel] by blast
    have "\<not> incident u e" using l e by (simp add: adjacency_empty)
    then show "\<not> incident u e'" using incident_substituted [OF r assms] by simp
  qed
  then show "adjacency (substitutedEdges anchors edges) u = []" by (simp add: adjacency_empty)
qed

text \<open>The result of split, in terms of the components of the completed graph.\<close>

definition keptComponents :: "Anchor list \<Rightarrow> Edge list \<Rightarrow> Segment list" where
  "keptComponents anchors edges
     = filter (\<lambda>seg. \<not> onlyLooseJunctions seg)
         (components (completedAnchors anchors edges) (substitutedEdges anchors edges))"

lemma split_unfold: "split anchors edges labels = assignLabels labels (keptComponents anchors edges)"
  by (simp add: split_def keptComponents_def completedAnchors_def substitutedEdges_def
      case_prod_beta)

lemma split_anchors:
  "map seg_anchors (split anchors edges labels) = map seg_anchors (keptComponents anchors edges)"
  by (simp add: split_unfold assignLabels_anchors)

lemma split_edges:
  "map seg_edges (split anchors edges labels) = map seg_edges (keptComponents anchors edges)"
  by (simp add: split_unfold assignLabels_edges)

lemma split_member:
  "seg \<in> set (split anchors edges labels) \<Longrightarrow>
     \<exists>seg0 \<in> set (keptComponents anchors edges).
       seg_anchors seg = seg_anchors seg0 \<and> seg_edges seg = seg_edges seg0"
  unfolding split_unfold by (rule assignLabels_member)

lemma split_member':
  "seg0 \<in> set (keptComponents anchors edges) \<Longrightarrow>
     \<exists>seg \<in> set (split anchors edges labels).
       seg_anchors seg = seg_anchors seg0 \<and> seg_edges seg = seg_edges seg0"
  unfolding split_unfold by (rule assignLabels_member')

lemma split_has_anchor:
  assumes "distinct (map anchor_uuid anchors)"
  shows "(\<exists>seg \<in> set (split anchors edges labels). x \<in> set (seg_anchors seg))
         \<longleftrightarrow> x \<in> set (completedAnchors anchors edges) \<and>
             \<not> (anchor_kind x = JunctionAnchor \<and>
                adjacency (substitutedEdges anchors edges) (anchor_uuid x) = [])"
proof -
  have "(\<exists>seg \<in> set (split anchors edges labels). x \<in> set (seg_anchors seg))
        \<longleftrightarrow> (\<exists>seg \<in> set (keptComponents anchors edges). x \<in> set (seg_anchors seg))"
  proof
    assume "\<exists>seg \<in> set (split anchors edges labels). x \<in> set (seg_anchors seg)"
    then obtain seg where "seg \<in> set (split anchors edges labels)" "x \<in> set (seg_anchors seg)"
      by auto
    then show "\<exists>seg \<in> set (keptComponents anchors edges). x \<in> set (seg_anchors seg)"
      using split_member [of seg anchors edges labels] by auto
  next
    assume "\<exists>seg \<in> set (keptComponents anchors edges). x \<in> set (seg_anchors seg)"
    then obtain seg where k: "seg \<in> set (keptComponents anchors edges)"
      and x: "x \<in> set (seg_anchors seg)"
      by auto
    from split_member' [OF k, of labels] obtain seg'
      where s: "seg' \<in> set (split anchors edges labels)"
        and eq: "seg_anchors seg' = seg_anchors seg \<and> seg_edges seg' = seg_edges seg"
      by (rule bexE)
    have "x \<in> set (seg_anchors seg')" using x eq by simp
    then show "\<exists>seg \<in> set (split anchors edges labels). x \<in> set (seg_anchors seg)"
      using s by (rule bexI)
  qed
  then show ?thesis
    unfolding keptComponents_def
    using components_kept [OF completed_distinct [OF assms] completed_closed, of edges x]
    by simp
qed


lemma concat_filter_empty:
  "(\<And>x. \<not> P x \<Longrightarrow> f x = []) \<Longrightarrow> concat (map f (filter P xs)) = concat (map f xs)"
  by (induction xs) auto

lemma distinct_map_eq:
  assumes "distinct (map f xs)" and "x \<in> set xs" and "y \<in> set xs" and "f x = f y"
  shows "x = y"
proof -
  have "inj_on f (set xs)" using assms(1) by (simp add: distinct_map)
  then show ?thesis using assms(4,2,3) by (rule inj_onD)
qed

lemma split_all_edges:
  "set (concat (map seg_edges (split anchors edges labels))) = set (substitutedEdges anchors edges)"
proof -
  let ?A = "completedAnchors anchors edges" and ?E = "substitutedEdges anchors edges"
  have "concat (map seg_edges (keptComponents anchors edges))
          = concat (map seg_edges (components ?A ?E))"
    unfolding keptComponents_def
    by (rule concat_filter_empty) (simp add: onlyLooseJunctions_def)
  then have "set (concat (map seg_edges (split anchors edges labels)))
               = set_mset (mset (concat (map seg_edges (components ?A ?E))))"
    by (simp only: split_edges set_mset_mset)
  also have "\<dots> = set ?E" unfolding components_edges [OF completed_closed] by simp
  finally show ?thesis .
qed

lemma split_anchors_distinct:
  assumes "distinct (map anchor_uuid anchors)"
  shows "distinct (concat (map seg_anchors (split anchors edges labels)))"
  unfolding split_anchors keptComponents_def
  by (intro distinct_concat_filter components_anchors_distinct completed_distinct assms)

lemma split_edges_distinct:
  assumes "distinct (map edge_uuid edges)"
  shows "distinct (concat (map seg_edges (split anchors edges labels)))"
  unfolding split_edges keptComponents_def
  by (intro distinct_concat_filter components_edges_distinct completed_closed
      substituted_distinct assms)

lemma substituted_unchanged:
  assumes "e \<in> set edges" and "set (endpoints e) \<subseteq> anchor_uuid ` set anchors"
  shows "e \<in> set (substitutedEdges anchors edges)"
proof -
  obtain e' where e': "e' \<in> set (substitutedEdges anchors edges)"
    and r: "edgeSubstituted (reservedUuids edges) anchors (completedAnchors anchors edges) e e'"
    using list_all2_left [OF substituted_rel assms(1)] by blast
  have "edge_start e \<in> anchor_uuid ` set anchors" "edge_end e \<in> anchor_uuid ` set anchors"
    using assms(2) by (simp_all add: endpoints_def)
  then have "e' = e" using r by (simp add: edgeSubstituted_def endSubstituted_def)
  then show ?thesis using e' by simp
qed


subsection \<open>A small net segment to split\<close>

definition anchorA :: Anchor where
  "anchorA = \<lparr>anchor_uuid = 1, anchor_kind = JunctionAnchor, anchor_position = (0, 0)\<rparr>"

definition anchorB :: Anchor where
  "anchorB = \<lparr>anchor_uuid = 2, anchor_kind = JunctionAnchor, anchor_position = (10, 0)\<rparr>"

definition viaD :: Anchor where
  "viaD = \<lparr>anchor_uuid = 4, anchor_kind = ViaAnchor, anchor_position = (30, 0)\<rparr>"

definition looseJunction :: Anchor where
  "looseJunction = \<lparr>anchor_uuid = 6, anchor_kind = JunctionAnchor, anchor_position = (40, 0)\<rparr>"

definition edgeAB :: Edge where
  "edgeAB = \<lparr>edge_uuid = 10, edge_start = 1, edge_end = 2, edge_startPos = (0, 0),
             edge_endPos = (10, 0)\<rparr>"

text \<open>The anchor 3 at the end of this edge is not part of the input.\<close>

definition edgeBC :: Edge where
  "edgeBC = \<lparr>edge_uuid = 11, edge_start = 2, edge_end = 3, edge_startPos = (10, 0),
             edge_endPos = (20, 0)\<rparr>"

definition someAnchors :: "Anchor list" where
  "someAnchors = [anchorA, anchorB, viaD, looseJunction]"

definition someEdges :: "Edge list" where
  "someEdges = [edgeAB, edgeBC]"

subsection \<open>The partition property\<close>

text \<open>
  C2, as stated, does not hold of the splitter of section 4.1: a junction without any edge
  is dropped by step 4, so it is an input anchor that no returned segment contains.
\<close>

theorem split_partition_counterexample:
  "set (concat (map seg_anchors (split [looseJunction] [] [])))
      - set (synthesizedAnchors [looseJunction] [])
     \<noteq> set [looseJunction]"
proof -
  have "split [looseJunction] [] [] = []" by code_simp
  then show ?thesis by simp
qed

text \<open>
  An input edge \<open>e\<close> and the edge \<open>e'\<close> returned for it: the identity and the positions are
  those of \<open>e\<close>; an end point among the input anchors is kept, and any other is replaced
  by a junction that the splitter synthesized at the position of that end point.
\<close>

definition endpointCompleted :: "Anchor list \<Rightarrow> Edge list \<Rightarrow> Uuid \<Rightarrow> Point \<Rightarrow> Uuid \<Rightarrow> bool" where
  "endpointCompleted anchors edges old position new =
     (if old \<in> anchor_uuid ` set anchors then new = old
      else \<lparr>anchor_uuid = new, anchor_kind = JunctionAnchor, anchor_position = position\<rparr>
             \<in> set (synthesizedAnchors anchors edges))"

definition edgeCompleted :: "Anchor list \<Rightarrow> Edge list \<Rightarrow> Edge \<Rightarrow> Edge \<Rightarrow> bool" where
  "edgeCompleted anchors edges e e' =
     (edge_uuid e' = edge_uuid e \<and> edge_startPos e' = edge_startPos e \<and>
      edge_endPos e' = edge_endPos e \<and>
      endpointCompleted anchors edges (edge_start e) (edge_startPos e) (edge_start e') \<and>
      endpointCompleted anchors edges (edge_end e) (edge_endPos e) (edge_end e'))"

lemma endSubstituted_completed:
  assumes "endSubstituted reserved anchors (completedAnchors anchors edges) old position new"
  shows "endpointCompleted anchors edges old position new"
proof (cases "old \<in> anchor_uuid ` set anchors")
  case True
  then show ?thesis using assms by (simp add: endpointCompleted_def endSubstituted_def)
next
  case False
  let ?J = "\<lparr>anchor_uuid = new, anchor_kind = JunctionAnchor, anchor_position = position\<rparr>"
  have fresh: "new \<notin> anchor_uuid ` set anchors"
    and J: "?J \<in> set (completedAnchors anchors edges)"
    using assms False by (simp_all add: endSubstituted_def)
  have "?J \<notin> set anchors"
  proof
    assume "?J \<in> set anchors"
    then have "anchor_uuid ?J \<in> anchor_uuid ` set anchors" by (rule imageI)
    then show False using fresh by simp
  qed
  then have "?J \<in> set (synthesizedAnchors anchors edges)"
    using J by (simp add: completedAnchors_eq)
  then show ?thesis using False by (simp add: endpointCompleted_def)
qed

lemma substituted_completed:
  "list_all2 (edgeCompleted anchors edges) edges (substitutedEdges anchors edges)"
proof (rule list.rel_mono_strong [OF substituted_rel])
  fix e e'
  assume "edgeSubstituted (reservedUuids edges) anchors (completedAnchors anchors edges) e e'"
  then show "edgeCompleted anchors edges e e'"
    by (auto simp: edgeSubstituted_def edgeCompleted_def intro: endSubstituted_completed)
qed

text \<open>
  C2, amended: for anchors and edges with distinct identities, the anchor sets of the
  returned segments are pairwise disjoint and their union, minus the synthesized anchors, is
  the set of the input anchors other than the junctions without any edge; the edge sets of
  the returned segments are pairwise disjoint and their union is the set of the input
  edges, no edge synthesized and no edge lost: the returned edges have, in order, the
  identities and positions of the input edges, with an end point among the input anchors
  kept and a missing end point replaced by the junction synthesized at its position, so an
  input edge whose two end points are among the input anchors is returned unchanged.
\<close>

theorem split_partition:
  assumes "distinct (map anchor_uuid anchors)" and "distinct (map edge_uuid edges)"
  shows "let out = split anchors edges labels in
     (\<forall>i j. i < j \<and> j < length out \<longrightarrow>
        set (seg_anchors (out ! i)) \<inter> set (seg_anchors (out ! j)) = {}) \<and>
     set (concat (map seg_anchors out)) - set (synthesizedAnchors anchors edges)
       = set (filter (\<lambda>a. \<not> (anchor_kind a = JunctionAnchor \<and>
                                adjacency edges (anchor_uuid a) = [])) anchors) \<and>
     (\<forall>i j. i < j \<and> j < length out \<longrightarrow>
        set (seg_edges (out ! i)) \<inter> set (seg_edges (out ! j)) = {}) \<and>
     set (concat (map seg_edges out)) = set (substitutedEdges anchors edges) \<and>
     map edge_uuid (substitutedEdges anchors edges) = map edge_uuid edges \<and>
     list_all2 (edgeCompleted anchors edges) edges (substitutedEdges anchors edges) \<and>
     (\<forall>e \<in> set edges. set (endpoints e) \<subseteq> anchor_uuid ` set anchors \<longrightarrow>
        e \<in> set (substitutedEdges anchors edges))"
proof -
  define out where "out = split anchors edges labels"
  have p1: "set (seg_anchors (out ! i)) \<inter> set (seg_anchors (out ! j)) = {}"
    if "i < j \<and> j < length out" for i j
  proof -
    have "set (map seg_anchors out ! i) \<inter> set (map seg_anchors out ! j) = {}"
      by (rule distinct_concat_nth)
        (use that split_anchors_distinct [OF assms(1)] in \<open>simp_all add: out_def\<close>)
    then show ?thesis using that by simp
  qed
  have p3: "set (seg_edges (out ! i)) \<inter> set (seg_edges (out ! j)) = {}"
    if "i < j \<and> j < length out" for i j
  proof -
    have "set (map seg_edges out ! i) \<inter> set (map seg_edges out ! j) = {}"
      by (rule distinct_concat_nth)
        (use that split_edges_distinct [OF assms(2)] in \<open>simp_all add: out_def\<close>)
    then show ?thesis using that by simp
  qed
  have p2: "set (concat (map seg_anchors out)) - set (synthesizedAnchors anchors edges)
       = set (filter (\<lambda>a. \<not> (anchor_kind a = JunctionAnchor \<and>
                                adjacency edges (anchor_uuid a) = [])) anchors)"
  proof (rule set_eqI)
    fix x
    have out: "x \<in> set (concat (map seg_anchors out))
        \<longleftrightarrow> x \<in> set (completedAnchors anchors edges) \<and>
             \<not> (anchor_kind x = JunctionAnchor \<and>
                adjacency (substitutedEdges anchors edges) (anchor_uuid x) = [])"
      using split_has_anchor [OF assms(1), of edges labels x] by (simp add: out_def)
    show "x \<in> set (concat (map seg_anchors out)) - set (synthesizedAnchors anchors edges)
        \<longleftrightarrow> x \<in> set (filter (\<lambda>a. \<not> (anchor_kind a = JunctionAnchor \<and>
                                adjacency edges (anchor_uuid a) = [])) anchors)"
    proof (cases "x \<in> set anchors")
      case True
      then have "x \<notin> set (synthesizedAnchors anchors edges)"
        using synthesized_apart [of anchors edges] by auto
      moreover have "x \<in> set (completedAnchors anchors edges)"
        using True by (simp add: completedAnchors_eq)
      moreover have "anchor_uuid x \<in> anchor_uuid ` set anchors" using True by (rule imageI)
      then have "adjacency (substitutedEdges anchors edges) (anchor_uuid x) = []
                   \<longleftrightarrow> adjacency edges (anchor_uuid x) = []"
        by (rule adjacency_substituted)
      ultimately show ?thesis using True out by simp
    next
      case False
      then show ?thesis using out by (auto simp: completedAnchors_eq)
    qed
  qed
  have p4: "set (concat (map seg_edges out)) = set (substitutedEdges anchors edges)"
    unfolding out_def by (rule split_all_edges)
  have p5: "map edge_uuid (substitutedEdges anchors edges) = map edge_uuid edges"
    by (rule substituted_uuids)
  have p6: "\<forall>e \<in> set edges. set (endpoints e) \<subseteq> anchor_uuid ` set anchors \<longrightarrow>
        e \<in> set (substitutedEdges anchors edges)"
    by (intro ballI impI substituted_unchanged)
  show ?thesis
    unfolding Let_def out_def [symmetric] by (intro conjI allI impI p1 p2 p3 p4 p5 p6 substituted_completed) simp_all
qed



theorem split_partition_witness:
  "distinct (map anchor_uuid someAnchors) \<and> distinct (map edge_uuid someEdges) \<and>
   map (\<lambda>seg. map anchor_uuid (seg_anchors seg)) (split someAnchors someEdges [])
     = [[1, 2, 7], [4]] \<and>
   map (\<lambda>seg. map edge_uuid (seg_edges seg)) (split someAnchors someEdges [])
     = [[10, 11], []] \<and>
   map anchor_uuid (synthesizedAnchors someAnchors someEdges) = [7] \<and>
   set (seg_anchors (split someAnchors someEdges [] ! 0))
     \<inter> set (seg_anchors (split someAnchors someEdges [] ! 1)) = {} \<and>
   set (concat (map seg_anchors (split someAnchors someEdges [])))
      - set (synthesizedAnchors someAnchors someEdges) = {anchorA, anchorB, viaD} \<and>
   set (concat (map seg_edges (split someAnchors someEdges [])))
     = {edgeAB, edgeBC\<lparr>edge_end := 7\<rparr>} \<and>
   \<lparr>anchor_uuid = 7, anchor_kind = JunctionAnchor, anchor_position = (20, 0)\<rparr>
     \<in> set (synthesizedAnchors someAnchors someEdges) \<and>
   edgeAB \<in> set (substitutedEdges someAnchors someEdges)"
proof -
  have d1: "distinct (map anchor_uuid someAnchors)" by code_simp
  have d2: "distinct (map edge_uuid someEdges)" by code_simp
  have o1: "map (\<lambda>seg. map anchor_uuid (seg_anchors seg)) (split someAnchors someEdges [])
              = [[1, 2, 7], [4]]"
    by code_simp
  have o2: "map (\<lambda>seg. map edge_uuid (seg_edges seg)) (split someAnchors someEdges [])
              = [[10, 11], []]"
    by code_simp
  have o3: "map anchor_uuid (synthesizedAnchors someAnchors someEdges) = [7]" by code_simp
  have len: "length (split someAnchors someEdges []) = 2"
    using arg_cong [OF o1, of length] by simp
  have kept: "filter (\<lambda>a. \<not> (anchor_kind a = JunctionAnchor \<and>
                 adjacency someEdges (anchor_uuid a) = [])) someAnchors = [anchorA, anchorB, viaD]"
    by code_simp
  have sub: "substitutedEdges someAnchors someEdges = [edgeAB, edgeBC\<lparr>edge_end := 7\<rparr>]"
    by code_simp
  have ends: "set (endpoints edgeAB) \<subseteq> anchor_uuid ` set someAnchors"
    by (simp add: endpoints_def edgeAB_def someAnchors_def anchorA_def anchorB_def)
  have mem: "edgeAB \<in> set someEdges" by (simp add: someEdges_def)
  note t = split_partition [OF d1 d2, of "[]", unfolded Let_def]
  have a: "set (seg_anchors (split someAnchors someEdges [] ! 0))
             \<inter> set (seg_anchors (split someAnchors someEdges [] ! 1)) = {}"
    using t [THEN conjunct1] len by simp
  have b: "set (concat (map seg_anchors (split someAnchors someEdges [])))
             - set (synthesizedAnchors someAnchors someEdges) = {anchorA, anchorB, viaD}"
    using t [THEN conjunct2, THEN conjunct1, unfolded kept] by simp
  have c: "set (concat (map seg_edges (split someAnchors someEdges [])))
             = {edgeAB, edgeBC\<lparr>edge_end := 7\<rparr>}"
    using t [THEN conjunct2, THEN conjunct2, THEN conjunct2, THEN conjunct1, unfolded sub]
    by simp
  have missing: "edge_end edgeBC \<notin> anchor_uuid ` set someAnchors" by code_simp
  have "list_all2 (edgeCompleted someAnchors someEdges) [edgeAB, edgeBC]
          [edgeAB, edgeBC\<lparr>edge_end := 7\<rparr>]"
    using t [THEN conjunct2, THEN conjunct2, THEN conjunct2, THEN conjunct2, THEN conjunct2,
      THEN conjunct1, unfolded sub]
    by (simp add: someEdges_def)
  then have "endpointCompleted someAnchors someEdges (edge_end edgeBC) (edge_endPos edgeBC) 7"
    by (simp add: edgeCompleted_def)
  then have j: "\<lparr>anchor_uuid = 7, anchor_kind = JunctionAnchor, anchor_position = (20, 0)\<rparr>
                  \<in> set (synthesizedAnchors someAnchors someEdges)"
    using missing by (simp add: endpointCompleted_def edgeBC_def)
  have e: "edgeAB \<in> set (substitutedEdges someAnchors someEdges)"
    using t [THEN conjunct2, THEN conjunct2, THEN conjunct2, THEN conjunct2, THEN conjunct2,
      THEN conjunct2]
      mem ends by simp
  show ?thesis by (intro conjI d1 d2 o1 o2 o3 a b c j e)
qed


subsection \<open>Junctions without edges\<close>

text \<open>
  C4: no returned segment contains a junction without an edge (every junction of a segment
  has an edge of that segment); an input junction without any edge is in no returned
  segment; an input via or pad without any edge is returned as a segment of its own, with
  that one anchor and no edge.
\<close>

theorem split_drops_loose_junctions:
  assumes "distinct (map anchor_uuid anchors)"
  shows "let out = split anchors edges labels in
     (\<forall>seg \<in> set out. \<forall>a \<in> set (seg_anchors seg).
        anchor_kind a = JunctionAnchor \<longrightarrow> adjacency (seg_edges seg) (anchor_uuid a) \<noteq> []) \<and>
     (\<forall>a \<in> set anchors.
        anchor_kind a = JunctionAnchor \<and> adjacency edges (anchor_uuid a) = [] \<longrightarrow>
        a \<notin> set (concat (map seg_anchors out))) \<and>
     (\<forall>a \<in> set anchors.
        anchor_kind a \<noteq> JunctionAnchor \<and> adjacency edges (anchor_uuid a) = [] \<longrightarrow>
        (\<exists>seg \<in> set out. seg_anchors seg = [a] \<and> seg_edges seg = []))"
proof -
  let ?A = "completedAnchors anchors edges" and ?E = "substitutedEdges anchors edges"
  define out where "out = split anchors edges labels"
  have dA: "distinct (map anchor_uuid ?A)" by (rule completed_distinct [OF assms])
  have p1: "adjacency (seg_edges seg) (anchor_uuid a) \<noteq> []"
    if seg: "seg \<in> set out" and a: "a \<in> set (seg_anchors seg)"
      and kind: "anchor_kind a = JunctionAnchor" for seg a
  proof -
    from split_member [OF seg [unfolded out_def]] obtain seg0
      where k: "seg0 \<in> set (keptComponents anchors edges)"
        and eq: "seg_anchors seg = seg_anchors seg0 \<and> seg_edges seg = seg_edges seg0"
      by (rule bexE)
    have c: "seg0 \<in> set (components ?A ?E)" and n: "\<not> onlyLooseJunctions seg0"
      using k by (simp_all add: keptComponents_def)
    have "a \<in> set (seg_anchors seg0)" using a eq by simp
    then have "adjacency (seg_edges seg0) (anchor_uuid a) \<noteq> []"
      using kind by (rule components_junction_linked [OF dA c n])
    then show ?thesis using eq by simp
  qed
  have p2: "a \<notin> set (concat (map seg_anchors out))"
    if a: "a \<in> set anchors"
      and loose: "anchor_kind a = JunctionAnchor \<and> adjacency edges (anchor_uuid a) = []" for a
  proof
    assume "a \<in> set (concat (map seg_anchors out))"
    then have "\<exists>seg \<in> set (split anchors edges labels). a \<in> set (seg_anchors seg)"
      by (simp add: out_def)
    then have "\<not> (anchor_kind a = JunctionAnchor \<and> adjacency ?E (anchor_uuid a) = [])"
      using split_has_anchor [OF assms, of edges labels a] by simp
    moreover have "anchor_uuid a \<in> anchor_uuid ` set anchors" using a by (rule imageI)
    then have "adjacency ?E (anchor_uuid a) = [] \<longleftrightarrow> adjacency edges (anchor_uuid a) = []"
      by (rule adjacency_substituted)
    ultimately show False using loose by simp
  qed
  have p3: "\<exists>seg \<in> set out. seg_anchors seg = [a] \<and> seg_edges seg = []"
    if a: "a \<in> set anchors"
      and lone: "anchor_kind a \<noteq> JunctionAnchor \<and> adjacency edges (anchor_uuid a) = []" for a
  proof -
    let ?single = "\<lparr>seg_anchors = [a], seg_edges = [], seg_labels = []\<rparr>"
    have "anchor_uuid a \<in> anchor_uuid ` set anchors" using a by (rule imageI)
    then have "adjacency ?E (anchor_uuid a) = [] \<longleftrightarrow> adjacency edges (anchor_uuid a) = []"
      by (rule adjacency_substituted)
    then have adj: "adjacency ?E (anchor_uuid a) = []" using lone by simp
    have mem: "a \<in> set ?A" using a by (simp add: completedAnchors_eq)
    have "?single \<in> set (components ?A ?E)"
      by (rule components_isolated [OF dA completed_closed mem adj])
    moreover have "\<not> onlyLooseJunctions ?single"
      using lone by (simp add: onlyLooseJunctions_def)
    ultimately have "?single \<in> set (keptComponents anchors edges)"
      by (simp add: keptComponents_def)
    from split_member' [OF this, of labels] obtain seg
      where s: "seg \<in> set out"
        and eq: "seg_anchors seg = seg_anchors ?single \<and> seg_edges seg = seg_edges ?single"
      unfolding out_def by (rule bexE)
    have "seg_anchors seg = [a] \<and> seg_edges seg = []" using eq by simp
    then show ?thesis using s by (rule bexI)
  qed
  show ?thesis
    unfolding Let_def out_def [symmetric] by (intro conjI ballI impI p1 p2 p3) simp_all
qed

theorem split_drops_loose_junctions_witness:
  "distinct (map anchor_uuid someAnchors) \<and>
   map (\<lambda>seg. map anchor_uuid (seg_anchors seg)) (split someAnchors someEdges [])
     = [[1, 2, 7], [4]] \<and>
   looseJunction \<in> set someAnchors \<and> anchor_kind looseJunction = JunctionAnchor \<and>
   adjacency someEdges (anchor_uuid looseJunction) = [] \<and>
   looseJunction \<notin> set (concat (map seg_anchors (split someAnchors someEdges []))) \<and>
   viaD \<in> set someAnchors \<and> anchor_kind viaD = ViaAnchor \<and>
   adjacency someEdges (anchor_uuid viaD) = [] \<and>
   (\<exists>seg \<in> set (split someAnchors someEdges []). seg_anchors seg = [viaD] \<and> seg_edges seg = []) \<and>
   anchorB \<in> set (seg_anchors (split someAnchors someEdges [] ! 0)) \<and>
   anchor_kind anchorB = JunctionAnchor \<and>
   adjacency (seg_edges (split someAnchors someEdges [] ! 0)) (anchor_uuid anchorB) \<noteq> []"
proof -
  have d1: "distinct (map anchor_uuid someAnchors)" by code_simp
  have o1: "map (\<lambda>seg. map anchor_uuid (seg_anchors seg)) (split someAnchors someEdges [])
              = [[1, 2, 7], [4]]"
    by code_simp
  have len: "length (split someAnchors someEdges []) = 2"
    using arg_cong [OF o1, of length] by simp
  then have first: "split someAnchors someEdges [] ! 0 \<in> set (split someAnchors someEdges [])"
    by simp
  have l1: "looseJunction \<in> set someAnchors" by (simp add: someAnchors_def)
  have l2: "anchor_kind looseJunction = JunctionAnchor" by (simp add: looseJunction_def)
  have l3: "adjacency someEdges (anchor_uuid looseJunction) = []" by code_simp
  have v1: "viaD \<in> set someAnchors" by (simp add: someAnchors_def)
  have v2: "anchor_kind viaD = ViaAnchor" by (simp add: viaD_def)
  have v3: "adjacency someEdges (anchor_uuid viaD) = []" by code_simp
  have b1: "anchorB \<in> set (seg_anchors (split someAnchors someEdges [] ! 0))" by code_simp
  have b2: "anchor_kind anchorB = JunctionAnchor" by (simp add: anchorB_def)
  note t = split_drops_loose_junctions [OF d1, of someEdges "[]", unfolded Let_def]
  have l4: "looseJunction \<notin> set (concat (map seg_anchors (split someAnchors someEdges [])))"
    using t [THEN conjunct2, THEN conjunct1, THEN bspec, OF l1] l2 l3 by simp
  have v4: "\<exists>seg \<in> set (split someAnchors someEdges []).
              seg_anchors seg = [viaD] \<and> seg_edges seg = []"
    using t [THEN conjunct2, THEN conjunct2, THEN bspec, OF v1] v2 v3 by simp
  have b3: "adjacency (seg_edges (split someAnchors someEdges [] ! 0)) (anchor_uuid anchorB) \<noteq> []"
    using t [THEN conjunct1, THEN bspec, OF first, THEN bspec, OF b1] b2 by simp
  show ?thesis by (intro conjI d1 o1 l1 l2 l3 l4 v1 v2 v3 v4 b1 b2 b3)
qed


subsection \<open>Edges whose end point is missing\<close>

text \<open>
  How the end point \<open>old\<close> of an input edge, at \<open>position\<close>, shows in the returned
  segment \<open>seg\<close> of the edge: an end point among the input anchors is kept; for any other,
  the new end point is a junction at \<open>position\<close>, synthesized by the splitter and part of
  the segment.
\<close>

definition endpointResolved ::
  "Anchor list \<Rightarrow> Edge list \<Rightarrow> Segment \<Rightarrow> Uuid \<Rightarrow> Point \<Rightarrow> Uuid \<Rightarrow> bool" where
  "endpointResolved anchors edges seg old position new =
     (if old \<in> anchor_uuid ` set anchors then new = old
      else \<lparr>anchor_uuid = new, anchor_kind = JunctionAnchor, anchor_position = position\<rparr>
             \<in> set (synthesizedAnchors anchors edges) \<inter> set (seg_anchors seg))"

text \<open>
  C5: every input edge appears (under its identity, with its positions) in some returned
  segment, together with the anchors of its two end points; an end point that is not among
  the input anchors has been replaced by a junction synthesized at the former position of
  that end point.
\<close>

theorem split_keeps_every_edge:
  assumes "distinct (map anchor_uuid anchors)" and "distinct (map edge_uuid edges)"
  shows "\<forall>e \<in> set edges. \<exists>seg \<in> set (split anchors edges labels). \<exists>e' \<in> set (seg_edges seg).
     edge_uuid e' = edge_uuid e \<and> edge_startPos e' = edge_startPos e \<and>
     edge_endPos e' = edge_endPos e \<and>
     set (endpoints e') \<subseteq> anchor_uuid ` set (seg_anchors seg) \<and>
     endpointResolved anchors edges seg (edge_start e) (edge_startPos e) (edge_start e') \<and>
     endpointResolved anchors edges seg (edge_end e) (edge_endPos e) (edge_end e')"
proof
  fix e
  assume e: "e \<in> set edges"
  let ?A = "completedAnchors anchors edges" and ?E = "substitutedEdges anchors edges"
  have dA: "distinct (map anchor_uuid ?A)" by (rule completed_distinct [OF assms(1)])
  obtain e' where e': "e' \<in> set ?E"
    and r: "edgeSubstituted (reservedUuids edges) anchors ?A e e'"
    using list_all2_left [OF substituted_rel e] by blast
  obtain seg0 where c: "seg0 \<in> set (components ?A ?E)" and e0: "e' \<in> set (seg_edges seg0)"
    using components_edges_cover [OF completed_closed e'] by blast
  have "\<not> onlyLooseJunctions seg0" using e0 by (auto simp: onlyLooseJunctions_def)
  then have "seg0 \<in> set (keptComponents anchors edges)" using c by (simp add: keptComponents_def)
  from split_member' [OF this, of labels] obtain seg
    where s: "seg \<in> set (split anchors edges labels)"
      and eq: "seg_anchors seg = seg_anchors seg0 \<and> seg_edges seg = seg_edges seg0"
    by (rule bexE)
  have ends: "u \<in> anchor_uuid ` set (seg_anchors seg0)" if "u \<in> set (endpoints e')" for u
    by (rule components_edge_ends [OF completed_closed substituted_distinct [OF assms(2)] c e0
          that])
  have res: "endpointResolved anchors edges seg old position new"
    if sub: "endSubstituted (reservedUuids edges) anchors ?A old position new"
      and new: "new \<in> set (endpoints e')" for old position new
  proof (cases "old \<in> anchor_uuid ` set anchors")
    case True
    then show ?thesis using sub by (simp add: endpointResolved_def endSubstituted_def)
  next
    case False
    let ?J = "\<lparr>anchor_uuid = new, anchor_kind = JunctionAnchor, anchor_position = position\<rparr>"
    have fresh: "new \<notin> anchor_uuid ` set anchors" and J: "?J \<in> set ?A"
      using sub False by (simp_all add: endSubstituted_def)
    have "?J \<notin> set anchors"
    proof
      assume "?J \<in> set anchors"
      then have "anchor_uuid ?J \<in> anchor_uuid ` set anchors" by (rule imageI)
      then show False using fresh by simp
    qed
    then have syn: "?J \<in> set (synthesizedAnchors anchors edges)"
      using J by (simp add: completedAnchors_eq)
    from ends [OF new] obtain x where x: "x \<in> set (seg_anchors seg0)" "new = anchor_uuid x"
      by (rule imageE)
    have "x \<in> set ?A" using components_anchors_subset [OF c] x(1) by auto
    then have "x = ?J" using J x(2) by (intro distinct_map_eq [OF dA]) simp_all
    then have "?J \<in> set (seg_anchors seg)" using x(1) eq by simp
    then show ?thesis using syn False by (simp add: endpointResolved_def)
  qed
  have r1: "endpointResolved anchors edges seg (edge_start e) (edge_startPos e) (edge_start e')"
    by (rule res) (use r in \<open>simp_all add: edgeSubstituted_def endpoints_def\<close>)
  have r2: "endpointResolved anchors edges seg (edge_end e) (edge_endPos e) (edge_end e')"
    by (rule res) (use r in \<open>simp_all add: edgeSubstituted_def endpoints_def\<close>)
  have same: "edge_uuid e' = edge_uuid e \<and> edge_startPos e' = edge_startPos e \<and>
              edge_endPos e' = edge_endPos e"
    using r by (simp add: edgeSubstituted_def)
  have sub: "set (endpoints e') \<subseteq> anchor_uuid ` set (seg_anchors seg)"
    using ends eq by (intro subsetI) simp
  have e1: "e' \<in> set (seg_edges seg)" using e0 eq by simp
  have "edge_uuid e' = edge_uuid e \<and> edge_startPos e' = edge_startPos e \<and>
     edge_endPos e' = edge_endPos e \<and>
     set (endpoints e') \<subseteq> anchor_uuid ` set (seg_anchors seg) \<and>
     endpointResolved anchors edges seg (edge_start e) (edge_startPos e) (edge_start e') \<and>
     endpointResolved anchors edges seg (edge_end e) (edge_endPos e) (edge_end e')"
    using same sub r1 r2 by (intro conjI) simp_all
  then have "\<exists>e' \<in> set (seg_edges seg).
     edge_uuid e' = edge_uuid e \<and> edge_startPos e' = edge_startPos e \<and>
     edge_endPos e' = edge_endPos e \<and>
     set (endpoints e') \<subseteq> anchor_uuid ` set (seg_anchors seg) \<and>
     endpointResolved anchors edges seg (edge_start e) (edge_startPos e) (edge_start e') \<and>
     endpointResolved anchors edges seg (edge_end e) (edge_endPos e) (edge_end e')"
    using e1 by (rule bexI)
  then show "\<exists>seg \<in> set (split anchors edges labels). \<exists>e' \<in> set (seg_edges seg).
     edge_uuid e' = edge_uuid e \<and> edge_startPos e' = edge_startPos e \<and>
     edge_endPos e' = edge_endPos e \<and>
     set (endpoints e') \<subseteq> anchor_uuid ` set (seg_anchors seg) \<and>
     endpointResolved anchors edges seg (edge_start e) (edge_startPos e) (edge_start e') \<and>
     endpointResolved anchors edges seg (edge_end e) (edge_endPos e) (edge_end e')"
    using s by (rule bexI)
qed

theorem split_keeps_every_edge_witness:
  "distinct (map anchor_uuid someAnchors) \<and> distinct (map edge_uuid someEdges) \<and>
   edgeBC \<in> set someEdges \<and>
   edge_start edgeBC \<in> anchor_uuid ` set someAnchors \<and>
   edge_end edgeBC \<notin> anchor_uuid ` set someAnchors \<and>
   synthesizedAnchors someAnchors someEdges
     = [\<lparr>anchor_uuid = 7, anchor_kind = JunctionAnchor, anchor_position = (20, 0)\<rparr>] \<and>
   map (\<lambda>seg. map anchor_uuid (seg_anchors seg)) (split someAnchors someEdges [])
     = [[1, 2, 7], [4]] \<and>
   map seg_edges (split someAnchors someEdges []) = [[edgeAB, edgeBC\<lparr>edge_end := 7\<rparr>], []] \<and>
   (\<exists>seg \<in> set (split someAnchors someEdges []). \<exists>e' \<in> set (seg_edges seg).
     edge_uuid e' = edge_uuid edgeBC \<and> edge_startPos e' = edge_startPos edgeBC \<and>
     edge_endPos e' = edge_endPos edgeBC \<and>
     set (endpoints e') \<subseteq> anchor_uuid ` set (seg_anchors seg) \<and>
     endpointResolved someAnchors someEdges seg (edge_start edgeBC) (edge_startPos edgeBC)
       (edge_start e') \<and>
     endpointResolved someAnchors someEdges seg (edge_end edgeBC) (edge_endPos edgeBC)
       (edge_end e'))"
proof -
  have d1: "distinct (map anchor_uuid someAnchors)" by code_simp
  have d2: "distinct (map edge_uuid someEdges)" by code_simp
  have m: "edgeBC \<in> set someEdges" by (simp add: someEdges_def)
  have s1: "edge_start edgeBC \<in> anchor_uuid ` set someAnchors" by code_simp
  have s2: "edge_end edgeBC \<notin> anchor_uuid ` set someAnchors" by code_simp
  have s3: "synthesizedAnchors someAnchors someEdges
     = [\<lparr>anchor_uuid = 7, anchor_kind = JunctionAnchor, anchor_position = (20, 0)\<rparr>]"
    by code_simp
  have o1: "map (\<lambda>seg. map anchor_uuid (seg_anchors seg)) (split someAnchors someEdges [])
              = [[1, 2, 7], [4]]"
    by code_simp
  have o2: "map seg_edges (split someAnchors someEdges [])
              = [[edgeAB, edgeBC\<lparr>edge_end := 7\<rparr>], []]"
    by code_simp
  note t = split_keeps_every_edge [OF d1 d2, of "[]", THEN bspec, OF m]
  show ?thesis by (intro conjI d1 d2 m s1 s2 s3 o1 o2 t)
qed

end
